theory Spec2Isabelle
  imports Main "HOL-Library.Word"
begin

unbundle bit_operations_syntax

section \<open>Data model of the forest (forest.go)\<close>

text \<open>A loop counter below its bound can be incremented without wrapping.\<close>

lemma unat_inc: "x < (y :: 'a::len word) \<Longrightarrow> unat (x + 1) = Suc (unat x)"
  by unat_arith

type_synonym u64 = "64 word"
type_synonym u8 = "8 word"

text \<open>A Hash is a 32-byte array; \<open>empty\<close> is the Go zero value \<^verbatim>\<open>var empty [32]byte\<close>.\<close>

type_synonym Hash = "256 word"

definition empty :: Hash where
  "empty = 0"

text \<open>
  Modelled from the spec: the storage backend (the ForestData interface and its two
  implementations are not among the sources). Section 4.2 gives the contract: \<open>read\<close>
  returns the sentinel for a slot never written, \<open>write\<close> overwrites a slot
  unconditionally, \<open>swapHash\<close> exchanges two slots, \<open>resize\<close> grows the allocated slot
  count to at least the requested capacity and never shrinks, \<open>size\<close> is the allocated
  capacity. The slots are a total map from positions to hashes, so a written value is
  never lost (the file-backed variant writes at byte offset \<open>p * hashSize\<close> wherever
  that is); \<open>alloc\<close> is the capacity that \<open>resize\<close> has established.
\<close>

record ForestData =
  slots :: "u64 \<Rightarrow> Hash"
  alloc :: u64

definition read :: "ForestData \<Rightarrow> u64 \<Rightarrow> Hash" where
  "read d pos = slots d pos"

definition write_fd :: "ForestData \<Rightarrow> u64 \<Rightarrow> Hash \<Rightarrow> ForestData" where
  "write_fd d pos h = d\<lparr>slots := (slots d)(pos := h)\<rparr>"

definition swapHash :: "ForestData \<Rightarrow> u64 \<Rightarrow> u64 \<Rightarrow> ForestData" where
  "swapHash d a b = d\<lparr>slots := (slots d)(a := slots d b, b := slots d a)\<rparr>"

definition resize :: "ForestData \<Rightarrow> u64 \<Rightarrow> ForestData" where
  "resize d newCapacity = d\<lparr>alloc := max (alloc d) newCapacity\<rparr>"

definition size_fd :: "ForestData \<Rightarrow> u64" where
  "size_fd d = alloc d"

text \<open>
  The Forest struct. The reverse index is keyed by MiniHash, the type of \<open>Hash.Mini()\<close>;
  neither is among the sources, so the key type is the parameter \<open>'m\<close> and \<open>Mini\<close> is
  passed to the operations that use it. The timing fields are left out: no operation
  modelled here reads them.
\<close>

record 'm Forest =
  numLeaves :: u64
  height :: u8
  data :: ForestData
  positionMap :: "'m \<rightharpoonup> u64"
  HistoricHashes :: u64

text \<open>
  The errors that the operations build with \<open>fmt.Errorf\<close>, one constructor per call
  site; \<open>ReadError\<close> is an error of \<open>os.File.Read\<close> handed on, and
  \<open>PanicIndexOutOfRange\<close> is Go's run-time panic at a slice index out of range, which
  ends the call where it happens.
\<close>

datatype error =
    TooManyDeletions
  | DeleteBeyondMax u64
  | DirtExceedsNumLeaves u64
  | PositionTooHigh u64
  | NoTopsRemaining
  | RemapSameHeight
  | RemapMoreThanOne
  | RemapReduction
  | ReadError
  | PositionMapNil
  | PanicIndexOutOfRange
  | SanityInsufficientHeight
  | SanityEmptyTop u64
  | SanityPositionMap

text \<open>
  NewForest with a nil file: the in-memory backend, one slot, an empty reverse index.
\<close>

definition NewForest :: "'m Forest" where
  "NewForest =
     \<lparr>numLeaves = 0, height = 0,
      data = resize \<lparr>slots = (\<lambda>_. empty), alloc = 0\<rparr> 1,
      positionMap = Map.empty, HistoricHashes = 0\<rparr>"

subsection \<open>reMap\<close>

text \<open>
  The inner loop of reMap, \<^verbatim>\<open>for x := uint64(0); x < runLength; x++\<close>: a source slot
  that is allocated and non-empty is copied from \<open>(pos>>1)+x\<close> to \<open>pos+x\<close>.
\<close>

function remapRun :: "u64 \<Rightarrow> u64 \<Rightarrow> u64 \<Rightarrow> ForestData \<Rightarrow> ForestData" where
  "remapRun pos runLength x d =
     (if x < runLength then
        (let ok = (size_fd d > drop_bit 1 pos + x \<and> read d (drop_bit 1 pos + x) \<noteq> empty);
             src = read d (drop_bit 1 pos + x)
         in remapRun pos runLength (x + 1) (if ok then write_fd d (pos + x) src else d))
      else d)"
  by pat_completeness auto
termination
proof (relation "measure (\<lambda>(pos, runLength, x, d). unat runLength - unat x)")
  show "wf (measure (\<lambda>(pos, runLength, x, d). unat runLength - unat x))" by simp
next
  fix pos runLength x :: u64 and d xa xb
  assume "x < runLength"
  then have "unat (x + 1) = Suc (unat x)" by (rule unat_inc)
  moreover have "unat x < unat runLength" using \<open>x < runLength\<close> by (simp add: word_less_nat_alt)
  ultimately show "((pos, runLength, x + 1, if xb then write_fd d (pos + x) xa else d),
                    (pos, runLength, x, d))
        \<in> measure (\<lambda>(pos, runLength, x, d). unat runLength - unat x)"
    by simp
qed

declare remapRun.simps [simp del]

text \<open>The outer loop, \<^verbatim>\<open>for h := uint8(1); h < destHeight; h++\<close>, row by row.\<close>

function remapRows :: "u8 \<Rightarrow> u8 \<Rightarrow> u64 \<Rightarrow> u64 \<Rightarrow> ForestData \<Rightarrow> ForestData" where
  "remapRows destHeight h pos reach d =
     (if h < destHeight then
        remapRows destHeight (h + 1) (pos + reach) (drop_bit 1 reach)
          (remapRun pos (drop_bit 1 reach) 0 d)
      else d)"
  by pat_completeness auto
termination
proof (relation "measure (\<lambda>(destHeight, h, pos, reach, d). unat destHeight - unat h)")
  show "wf (measure (\<lambda>(destHeight, h, pos, reach, d). unat destHeight - unat h))" by simp
next
  fix destHeight h :: u8 and pos reach :: u64 and d
  assume "h < destHeight"
  then have "unat (h + 1) = Suc (unat h)" by (rule unat_inc)
  moreover have "unat h < unat destHeight" using \<open>h < destHeight\<close> by (simp add: word_less_nat_alt)
  ultimately show "((destHeight, h + 1, pos + reach, drop_bit 1 reach,
                     remapRun pos (drop_bit 1 reach) 0 d),
                    (destHeight, h, pos, reach, d))
        \<in> measure (\<lambda>(destHeight, h, pos, reach, d). unat destHeight - unat h)"
    by simp
qed

declare remapRows.simps [simp del]

text \<open>The last loop, \<^verbatim>\<open>for x := uint64(1 << f.height); x < 1<<destHeight; x++\<close>.\<close>

function zeroRight :: "u64 \<Rightarrow> u64 \<Rightarrow> ForestData \<Rightarrow> ForestData" where
  "zeroRight x bound d =
     (if x < bound then zeroRight (x + 1) bound (write_fd d x empty) else d)"
  by pat_completeness auto
termination
proof (relation "measure (\<lambda>(x, bound, d). unat bound - unat x)")
  show "wf (measure (\<lambda>(x, bound, d). unat bound - unat x))" by simp
next
  fix x bound :: u64 and d
  assume "x < bound"
  then have "unat (x + 1) = Suc (unat x)" by (rule unat_inc)
  moreover have "unat x < unat bound" using \<open>x < bound\<close> by (simp add: word_less_nat_alt)
  ultimately show "((x + 1, bound, write_fd d x empty), (x, bound, d))
        \<in> measure (\<lambda>(x, bound, d). unat bound - unat x)"
    by simp
qed

declare zeroRight.simps [simp del]

text \<open>
  reMap returns the forest after the call together with the error, if any. The shifts
  \<^verbatim>\<open>1 << destHeight\<close> are 64-bit shifts by an 8-bit count: a count of 64 or more
  gives 0, as \<open>push_bit\<close> on a 64-bit word does.
\<close>

definition reMap :: "'m Forest \<Rightarrow> u8 \<Rightarrow> 'm Forest \<times> error option" where
  "reMap f destHeight =
     (if destHeight = height f then (f, Some RemapSameHeight)
      else if destHeight > height f + 1 \<or> (height f > 0 \<and> destHeight < height f - 1)
        then (f, Some RemapMoreThanOne)
      else if destHeight < height f then (f, Some RemapReduction)
      else
        (let d1 = resize (data f) (push_bit (unat destHeight) 1);
             pos = push_bit (unat destHeight) (1 :: u64);
             reach = drop_bit 1 pos;
             d2 = remapRows destHeight 1 pos reach d1;
             d3 = zeroRight (push_bit (unat (height f)) 1) (push_bit (unat destHeight) 1) d2
         in (f\<lparr>data := d3, height := destHeight\<rparr>, None)))"

text \<open>The error paths of reMap leave the forest as it was; success is growth by one.\<close>

lemma reMap_error_unchanged:
  "snd (reMap f destHeight) \<noteq> None \<Longrightarrow> fst (reMap f destHeight) = f"
  by (auto simp: reMap_def Let_def split: if_split_asm)

lemma reMap_success_iff:
  "snd (reMap f destHeight) = None \<longleftrightarrow> unat destHeight = Suc (unat (height f))"
  apply (simp add: reMap_def Let_def)
  apply unat_arith
  done

lemma reMap_success_height:
  "snd (reMap f destHeight) = None \<Longrightarrow> height (fst (reMap f destHeight)) = destHeight"
  by (auto simp: reMap_def Let_def split: if_split_asm)

subsection \<open>Position arithmetic\<close>

text \<open>
  Modelled from the spec: \<open>up1\<close>, the parent position of a node (utils.go is not among
  the sources). The rows of a forest of height \<open>H\<close> lie one after the other, row 0 in
  \<open>[0, 2^H)\<close>, and reMap places row 1 at \<open>1 << height\<close> with every row half as long as
  the one below; the sibling of \<open>p\<close> is \<open>p XOR 1\<close>. The parent of the pair at index
  \<open>x\<close> of a row is the node at index \<open>x div 2\<close> of the next row: halve the position
  and set bit \<open>H\<close>.
\<close>

definition up1 :: "u64 \<Rightarrow> u8 \<Rightarrow> u64" where
  "up1 position forestHeight = drop_bit 1 position OR push_bit (unat forestHeight) 1"

text \<open>
  Modelled from the spec: \<open>detectHeight\<close>, the row of a position within the current tree
  height. A position of row \<open>r\<close> has bits \<open>H, H-1, ..., H-r+1\<close> set and bit \<open>H-r\<close>
  clear: the row is the length of the run of one bits from bit \<open>H\<close> downwards.
\<close>

fun onesFrom :: "u64 \<Rightarrow> nat \<Rightarrow> nat" where
  "onesFrom position 0 = (if bit position 0 then 1 else 0)"
| "onesFrom position (Suc k) = (if bit position (Suc k) then Suc (onesFrom position k) else 0)"

definition detectHeight :: "u64 \<Rightarrow> u8 \<Rightarrow> u8" where
  "detectHeight position forestHeight = of_nat (onesFrom position (unat forestHeight))"

text \<open>
  Modelled from the spec: \<open>getTopsReverse\<close> (utils.go is not among the sources).
  Section 4.1: given numLeaves and height it returns the ordered list of top positions,
  tallest first, and their row heights, one top per set bit of numLeaves, highest bit
  first. Section 3: a top is the root of one of the maximal perfect subtrees that
  partition the leaves; the one of row \<open>r\<close> has as leftmost leaf numLeaves with bits
  \<open>0..r\<close> cleared, and its root is \<open>r\<close> parents up from that leaf.
\<close>

definition topPos :: "u64 \<Rightarrow> nat \<Rightarrow> u8 \<Rightarrow> u64" where
  "topPos nl r fh =
     ((\<lambda>p. up1 p fh) ^^ r) (push_bit (Suc r) (drop_bit (Suc r) nl))"

definition topRows :: "u64 \<Rightarrow> nat list" where
  "topRows nl = rev (filter (bit nl) [0 ..< 64])"

definition getTopsReverse :: "u64 \<Rightarrow> u8 \<Rightarrow> u64 list \<times> u8 list" where
  "getTopsReverse nl fh =
     (map (\<lambda>r. topPos nl r fh) (topRows nl),
      map of_nat (topRows nl))"

subsection \<open>addv2\<close>

text \<open>
  The carry loop of addv2, \<^verbatim>\<open>for h := uint8(0); (f.numLeaves>>h)&1 == 1; h++\<close>. The
  arguments are what the loop has in scope: the parent-combining function (\<open>Parent\<close> is
  not among the sources: a parameter), numLeaves and height, the top list computed
  before the loop, and the running \<open>h\<close>, \<open>pos\<close>, \<open>n\<close> and storage. \<open>tops[h]\<close> past
  the end of the list is Go's index panic.
\<close>

function addCarry ::
  "(Hash \<Rightarrow> Hash \<Rightarrow> Hash) \<Rightarrow> u64 \<Rightarrow> u8 \<Rightarrow> u64 list \<Rightarrow> u8 \<Rightarrow> u64 \<Rightarrow> Hash \<Rightarrow> ForestData
     \<Rightarrow> ForestData \<times> error option" where
  "addCarry Parent nl fh tops h pos n d =
     (if drop_bit (unat h) nl AND 1 = 1 then
        (if unat h < length tops then
           (let top = read d (tops ! unat h);
                n' = Parent top n;
                pos' = up1 pos fh
            in addCarry Parent nl fh tops (h + 1) pos' n' (write_fd d pos' n'))
         else (d, Some PanicIndexOutOfRange))
      else (d, None))"
  by pat_completeness auto
termination
proof (relation "measure (\<lambda>(Parent, nl, fh, tops, h, pos, n, d). 64 - unat h)")
  show "wf (measure (\<lambda>(Parent, nl, fh, tops, h, pos, n, d). 64 - unat h))" by simp
next
  fix Parent :: "Hash \<Rightarrow> Hash \<Rightarrow> Hash" and nl :: u64 and fh :: u8 and tops :: "u64 list"
    and h :: u8 and pos :: u64 and n :: Hash and d :: ForestData and x xa xb
  assume a: "drop_bit (unat h) nl AND 1 = 1"
  have "unat h < 64"
  proof (rule ccontr)
    assume "\<not> unat h < 64"
    then have "drop_bit (unat h) nl = 0"
      by (intro bit_word_eqI) (simp add: bit_simps)
    with a show False by simp
  qed
  moreover from this have "h < 64"
    by (simp add: word_less_nat_alt)
  then have "unat (h + 1) = Suc (unat h)"
    by (rule unat_inc)
  ultimately show "((Parent, nl, fh, tops, h + 1, xb, xa, write_fd d xb xa),
                    (Parent, nl, fh, tops, h, pos, n, d))
        \<in> measure (\<lambda>(Parent, nl, fh, tops, h, pos, n, d). 64 - unat h)"
    by simp
qed

declare addCarry.simps [simp del]

text \<open>
  One turn of the loop over \<open>adds\<close>. A LeafTXO enters the forest only through its Hash
  field (\<open>add.Hash\<close>, and \<open>add.Mini()\<close>, the key of that hash), so a leaf is its hash
  here; \<open>Mini\<close> is a parameter.
\<close>

definition addOne ::
  "(Hash \<Rightarrow> Hash \<Rightarrow> Hash) \<Rightarrow> (Hash \<Rightarrow> 'm) \<Rightarrow> 'm Forest \<Rightarrow> Hash \<Rightarrow> 'm Forest \<times> error option" where
  "addOne Parent Mini f add =
     (let pm = (positionMap f)(Mini add \<mapsto> numLeaves f);
          tops = fst (getTopsReverse (numLeaves f) (height f));
          pos = numLeaves f;
          n = add;
          d1 = write_fd (data f) pos n;
          (d2, e) = addCarry Parent (numLeaves f) (height f) tops 0 pos n d1
      in case e of
           Some err \<Rightarrow> (f\<lparr>data := d2, positionMap := pm\<rparr>, Some err)
         | None \<Rightarrow> (f\<lparr>numLeaves := numLeaves f + 1, data := d2, positionMap := pm\<rparr>, None))"

fun addv2 ::
  "(Hash \<Rightarrow> Hash \<Rightarrow> Hash) \<Rightarrow> (Hash \<Rightarrow> 'm) \<Rightarrow> 'm Forest \<Rightarrow> Hash list \<Rightarrow> 'm Forest \<times> error option" where
  "addv2 Parent Mini f [] = (f, None)"
| "addv2 Parent Mini f (add # adds) =
     (case addOne Parent Mini f add of
        (f', Some err) \<Rightarrow> (f', Some err)
      | (f', None) \<Rightarrow> addv2 Parent Mini f' adds)"

definition Add ::
  "(Hash \<Rightarrow> Hash \<Rightarrow> Hash) \<Rightarrow> (Hash \<Rightarrow> 'm) \<Rightarrow> 'm Forest \<Rightarrow> Hash list \<Rightarrow> 'm Forest \<times> error option" where
  "Add Parent Mini f adds = addv2 Parent Mini f adds"



subsection \<open>Example values\<close>

text \<open>
  A stand-in for the parent-combining hash and for the key of the reverse index, and
  the forests that the operations build from them; the closed instances below are
  computed on these.
\<close>

definition exParent :: "Hash \<Rightarrow> Hash \<Rightarrow> Hash" where
  "exParent l r = 1000 * l + r"

definition exMini :: "Hash \<Rightarrow> Hash" where
  "exMini h = h"

definition exForestH2 :: "Hash Forest" where
  "exForestH2 = fst (reMap (fst (reMap NewForest 1)) 2)"

definition exForest3 :: "Hash Forest" where
  "exForest3 = fst (addv2 exParent exMini exForestH2 [1, 2, 3])"

text \<open>
  Three leaves in a forest of height 2, with the parent of the first two at position 4:
  the storage that a fourth leaf is added to.
\<close>

definition exLeaves3 :: "(Hash \<Rightarrow> Hash \<Rightarrow> Hash) \<Rightarrow> Hash \<Rightarrow> Hash \<Rightarrow> Hash \<Rightarrow> ForestData" where
  "exLeaves3 Parent l0 l1 l2 =
     \<lparr>slots = (\<lambda>_. empty)(0 := l0, 1 := l1, 2 := l2, 4 := Parent l0 l1), alloc = 8\<rparr>"

subsection \<open>reHash\<close>

text \<open>
  Modelled from the spec: \<open>mergeSortedSlices\<close> (not among the sources) merges two sorted
  position lists into one sorted list, as section 4.5 step 2 says.
\<close>

fun mergeSortedSlices :: "u64 list \<Rightarrow> u64 list \<Rightarrow> u64 list" where
  "mergeSortedSlices [] b = b"
| "mergeSortedSlices a [] = a"
| "mergeSortedSlices (x # a) (y # b) =
     (if x \<le> y then x # mergeSortedSlices a (y # b) else y # mergeSortedSlices (x # a) b)"

text \<open>
  The first loop of reHash sorts the dirty positions into \<open>dirty2d\<close>. The counter \<open>h\<close>
  only rises (\<^verbatim>\<open>for h < dHeight { h++ }\<close> leaves the larger of the two); \<open>dirty2d\<close> has
  \<open>height\<close> entries, so the index \<open>h = height\<close>, which the check before it lets
  through, is Go's index panic.
\<close>

fun dirtLoop ::
  "u64 \<Rightarrow> u8 \<Rightarrow> u64 list \<Rightarrow> u8 \<Rightarrow> u64 list list \<Rightarrow> int \<Rightarrow> error + (u64 list list \<times> int)" where
  "dirtLoop nl fh [] h dirty2d dirtyRemaining = Inr (dirty2d, dirtyRemaining)"
| "dirtLoop nl fh (pos # dirt) h dirty2d dirtyRemaining =
     (if pos > nl then Inl (DirtExceedsNumLeaves pos)
      else
        (let dHeight = detectHeight pos fh;
             h' = (if h < dHeight then dHeight else h)
         in if h' > fh then Inl (PositionTooHigh pos)
            else if unat h' < length dirty2d then
              dirtLoop nl fh dirt h' (dirty2d[unat h' := dirty2d ! unat h' @ [pos]])
                (dirtyRemaining + 1)
            else Inl PanicIndexOutOfRange))"

text \<open>
  The loop over \<open>currentRow\<close> within one floor. The state is the storage, the hash
  counter and \<open>nextRow\<close>; an error ends the call with the writes made so far.
\<close>

fun rowLoop ::
  "(Hash \<Rightarrow> Hash \<Rightarrow> Hash) \<Rightarrow> u8 \<Rightarrow> u64 list \<Rightarrow> u64 list \<Rightarrow> ForestData \<times> u64 \<times> u64 list
     \<Rightarrow> (ForestData \<times> u64 \<times> u64 list) \<times> error option" where
  "rowLoop Parent fh tops [] st = (st, None)"
| "rowLoop Parent fh tops (pos # rest) st =
     (case st of (d, hashes, nextRow) \<Rightarrow>
        if rest \<noteq> [] \<and> pos OR 1 = hd rest then rowLoop Parent fh tops rest st
        else if tops = [] then (st, Some NoTopsRemaining)
        else if pos = hd tops then rowLoop Parent fh tops rest st
        else
          (let right = pos OR 1;
               left = right XOR 1;
               parpos = up1 left fh
           in if read d left = empty \<or> read d right = empty then
                rowLoop Parent fh tops rest (write_fd d parpos empty, hashes, nextRow @ [parpos])
              else
                rowLoop Parent fh tops rest
                  (write_fd d parpos (Parent (read d left) (read d right)), hashes + 1,
                   nextRow @ [parpos])))"

text \<open>
  The loop floor by floor, \<^verbatim>\<open>for h = uint8(0); h < f.height; h++\<close>.
  \<open>topheights[0]\<close> on an empty list is the index panic.
\<close>

function floorLoop ::
  "(Hash \<Rightarrow> Hash \<Rightarrow> Hash) \<Rightarrow> u8 \<Rightarrow> u64 list list \<Rightarrow> u8 \<Rightarrow> u64 list \<Rightarrow> u64 list \<Rightarrow> u8 list
     \<Rightarrow> int \<Rightarrow> ForestData \<times> u64 \<Rightarrow> (ForestData \<times> u64) \<times> error option" where
  "floorLoop Parent fh dirty2d h currentRow tops topheights dirtyRemaining st =
     (if h < fh then
        (if unat h < length dirty2d then
           (let currentRow' = mergeSortedSlices currentRow (dirty2d ! unat h);
                dirtyRemaining' = dirtyRemaining - int (length (dirty2d ! unat h))
            in if dirtyRemaining' = 0 \<and> currentRow' = [] then (st, None)
               else
                 (case rowLoop Parent fh tops currentRow' (fst st, snd st, []) of
                    ((d, hashes, nextRow), Some err) \<Rightarrow> ((d, hashes), Some err)
                  | ((d, hashes, nextRow), None) \<Rightarrow>
                      if topheights = [] then ((d, hashes), Some PanicIndexOutOfRange)
                      else if hd topheights = h then
                        (if tops = [] then ((d, hashes), Some PanicIndexOutOfRange)
                         else floorLoop Parent fh dirty2d (h + 1) nextRow (tl tops)
                                (tl topheights) dirtyRemaining' (d, hashes))
                      else floorLoop Parent fh dirty2d (h + 1) nextRow tops topheights
                             dirtyRemaining' (d, hashes)))
         else (st, Some PanicIndexOutOfRange))
      else (st, None))"
  by pat_completeness auto
termination
proof (relation "measure (\<lambda>(Parent, fh, dirty2d, h, currentRow, tops, topheights,
                            dirtyRemaining, st). unat fh - unat h)")
  show "wf (measure (\<lambda>(Parent, fh, dirty2d, h, currentRow, tops, topheights,
                            dirtyRemaining, st). unat fh - unat h))"
    by simp
qed (auto simp: unat_inc word_less_nat_alt)

declare floorLoop.simps [simp del]

definition reHash ::
  "(Hash \<Rightarrow> Hash \<Rightarrow> Hash) \<Rightarrow> 'm Forest \<Rightarrow> u64 list \<Rightarrow> 'm Forest \<times> error option" where
  "reHash Parent f dirt =
     (if height f = 0 \<or> dirt = [] then (f, None)
      else
        (let (tops, topheights) = getTopsReverse (numLeaves f) (height f);
             dirty2d = replicate (unat (height f)) []
         in case dirtLoop (numLeaves f) (height f) dirt 0 dirty2d 0 of
              Inl err \<Rightarrow> (f, Some err)
            | Inr (dirty2d', dirtyRemaining) \<Rightarrow>
                (case floorLoop Parent (height f) dirty2d' 0 [] tops topheights dirtyRemaining
                        (data f, HistoricHashes f) of
                   ((d, hashes), e) \<Rightarrow> (f\<lparr>data := d, HistoricHashes := hashes\<rparr>, e))))"

subsection \<open>removev3 and Remove\<close>

text \<open>
  The loop over the swaps. \<open>floorTransform\<close> is not among the sources, and the spec
  leaves its algorithm open: it is a parameter of removev3, and a swap is the pair
  (from, to) of the arrow it returns.
\<close>

fun swapLoop ::
  "(Hash \<Rightarrow> 'm) \<Rightarrow> u64 \<Rightarrow> (u64 \<times> u64) list \<Rightarrow> ForestData \<times> ('m \<rightharpoonup> u64) \<times> u64 list
     \<Rightarrow> ForestData \<times> ('m \<rightharpoonup> u64) \<times> u64 list" where
  "swapLoop Mini nextNumLeaves [] st = st"
| "swapLoop Mini nextNumLeaves ((s_from, s_to) # swaps) st =
     (case st of (d, pm, dirt) \<Rightarrow>
        (let d' = swapHash d s_from s_to;
             dirt' = (if s_to < nextNumLeaves then
                        (if s_from < nextNumLeaves then dirt @ [s_to] @ [s_from]
                         else dirt @ [s_to])
                      else dirt);
             pm' = pm(Mini (read d' s_to) \<mapsto> s_to);
             pm'' = pm'(Mini (read d' s_from) \<mapsto> s_from)
         in swapLoop Mini nextNumLeaves swaps (d', pm'', dirt')))"

definition removev3 ::
  "(u64 list \<Rightarrow> u64 \<Rightarrow> u8 \<Rightarrow> (u64 \<times> u64) list) \<Rightarrow> (Hash \<Rightarrow> Hash \<Rightarrow> Hash) \<Rightarrow> (Hash \<Rightarrow> 'm)
     \<Rightarrow> 'm Forest \<Rightarrow> u64 list \<Rightarrow> 'm Forest \<times> error option" where
  "removev3 floorTransform Parent Mini f dels =
     (if of_nat (length dels) > numLeaves f then (f, Some TooManyDeletions)
      else
        (let nextNumLeaves = numLeaves f - of_nat (length dels)
         in case find (\<lambda>dpos. dpos > numLeaves f) dels of
              Some dpos \<Rightarrow> (f, Some (DeleteBeyondMax dpos))
            | None \<Rightarrow>
                (let swaps = floorTransform dels (numLeaves f) (height f);
                     (d, pm, dirt) = swapLoop Mini nextNumLeaves swaps
                                       (data f, positionMap f, [])
                 in reHash Parent
                      (f\<lparr>numLeaves := nextNumLeaves, data := d, positionMap := pm\<rparr>) dirt)))"

definition Remove ::
  "(u64 list \<Rightarrow> u64 \<Rightarrow> u8 \<Rightarrow> (u64 \<times> u64) list) \<Rightarrow> (Hash \<Rightarrow> Hash \<Rightarrow> Hash) \<Rightarrow> (Hash \<Rightarrow> 'm)
     \<Rightarrow> 'm Forest \<Rightarrow> u64 list \<Rightarrow> 'm Forest \<times> error option" where
  "Remove floorTransform Parent Mini f dels = removev3 floorTransform Parent Mini f dels"

subsection \<open>cleanup\<close>

function cleanupLoop ::
  "(Hash \<Rightarrow> 'm) \<Rightarrow> u64 \<Rightarrow> u64 \<Rightarrow> ForestData \<times> ('m \<rightharpoonup> u64) \<Rightarrow> ForestData \<times> ('m \<rightharpoonup> u64)" where
  "cleanupLoop Mini p bound st =
     (if p < bound then
        (case st of (d, pm) \<Rightarrow>
           cleanupLoop Mini (p + 1) bound (write_fd d p empty, pm(Mini (read d p) := None)))
      else st)"
  by pat_completeness auto
termination
proof (relation "measure (\<lambda>(Mini, p, bound, st). unat bound - unat p)")
  show "wf (measure (\<lambda>(Mini, p, bound, st). unat bound - unat p))" by simp
qed (auto simp: unat_inc word_less_nat_alt)

declare cleanupLoop.simps [simp del]

definition cleanup :: "(Hash \<Rightarrow> 'm) \<Rightarrow> 'm Forest \<Rightarrow> u64 \<Rightarrow> 'm Forest" where
  "cleanup Mini f overshoot =
     (case cleanupLoop Mini (numLeaves f) (numLeaves f + overshoot) (data f, positionMap f) of
        (d, pm) \<Rightarrow> f\<lparr>data := d, positionMap := pm\<rparr>)"

subsection \<open>Modify\<close>

text \<open>
  The loop at the head of Modify,
  \<^verbatim>\<open>for f.numLeaves+delta > 1<<f.height { err := f.reMap(f.height + 1) ... }\<close>,
  in 64-bit arithmetic throughout; \<open>f.height + 1\<close> is an 8-bit sum.
\<close>

function growLoop :: "'m Forest \<Rightarrow> u64 \<Rightarrow> 'm Forest \<times> error option" where
  "growLoop f delta =
     (if numLeaves f + delta > push_bit (unat (height f)) 1 then
        (if snd (reMap f (height f + 1)) = None then growLoop (fst (reMap f (height f + 1))) delta
         else reMap f (height f + 1))
      else (f, None))"
  by pat_completeness auto
termination
proof (relation "measure (\<lambda>(f, delta). 255 - unat (height f))")
  show "wf (measure (\<lambda>(f, delta). 255 - unat (height f)))" by simp
next
  fix f :: "'m Forest" and delta :: u64
  assume ok: "snd (reMap f (height f + 1)) = None"
  then have "height (fst (reMap f (height f + 1))) = height f + 1"
    by (rule reMap_success_height)
  moreover have "unat (height f + 1) = Suc (unat (height f))"
    using ok by (simp add: reMap_success_iff)
  moreover have "unat (height f + 1) < 256"
    using unsigned_less[of "height f + 1"] by simp
  ultimately show "((fst (reMap f (height f + 1)), delta), (f, delta))
        \<in> measure (\<lambda>(f, delta). 255 - unat (height f))"
    by simp
qed

declare growLoop.simps [simp del]

text \<open>
  Modify. \<open>BuildUndoData\<close> is not among the sources; it builds the undo block from the
  forest after cleanup and is taken to leave the forest as it is, so the model returns
  the forest and the error only.
\<close>

definition Modify ::
  "(u64 list \<Rightarrow> u64 \<Rightarrow> u8 \<Rightarrow> (u64 \<times> u64) list) \<Rightarrow> (Hash \<Rightarrow> Hash \<Rightarrow> Hash) \<Rightarrow> (Hash \<Rightarrow> 'm)
     \<Rightarrow> 'm Forest \<Rightarrow> Hash list \<Rightarrow> u64 list \<Rightarrow> 'm Forest \<times> error option" where
  "Modify floorTransform Parent Mini f adds dels =
     (let numdels = of_nat (length dels) :: u64;
          numadds = of_nat (length adds) :: u64;
          delta = numadds - numdels
      in case growLoop f delta of
           (f1, Some err) \<Rightarrow> (f1, Some err)
         | (f1, None) \<Rightarrow>
             (case removev3 floorTransform Parent Mini f1 dels of
                (f2, Some err) \<Rightarrow> (f2, Some err)
              | (f2, None) \<Rightarrow> addv2 Parent Mini (cleanup Mini f2 numdels) adds))"


definition exForest1 :: "Hash Forest" where
  "exForest1 = fst (addv2 exParent exMini NewForest [7])"

definition exForest2 :: "Hash Forest" where
  "exForest2 = fst (addv2 exParent exMini (fst (reMap NewForest 1)) [1, 2])"

subsection \<open>sanity\<close>

text \<open>
  The three checks of \<open>sanity\<close>; \<open>len(f.positionMap)\<close> is the number of keys of the
  reverse index.
\<close>

definition sanity :: "'m Forest \<Rightarrow> error option" where
  "sanity f =
     (if numLeaves f > push_bit (unat (height f)) 1 then Some SanityInsufficientHeight
      else
        (case find (\<lambda>t. read (data f) t = empty)
                (fst (getTopsReverse (numLeaves f) (height f))) of
           Some t \<Rightarrow> Some (SanityEmptyTop t)
         | None \<Rightarrow>
             if of_nat (card (dom (positionMap f))) > numLeaves f then Some SanityPositionMap
             else None))"

text \<open>One turn of the loop at the head of Modify.\<close>

definition growStep :: "'m Forest \<Rightarrow> 'm Forest" where
  "growStep f = fst (reMap f (height f + 1))"

text \<open>The forest of one leaf at height 64.\<close>

definition exForestH64 :: "Hash Forest" where
  "exForestH64 = exForest1\<lparr>height := 64\<rparr>"

subsection \<open>Row offsets\<close>

text \<open>
  The leftmost position of row \<open>r\<close> in a forest of height \<open>H\<close>: row 0 starts at 0 and
  has \<open>2^H\<close> slots, each row above is half as long, so row \<open>r\<close> starts at
  \<open>2^(H+1) - 2^(H+1-r)\<close>. These are the positions the loop of reMap walks through:
  \<open>pos\<close> starts at \<^verbatim>\<open>1 << destHeight\<close> for row 1 and advances by \<open>reach\<close>, which halves
  per row, and the source of \<open>pos+x\<close> is \<open>(pos>>1)+x\<close>, the same row under the old height.
\<close>

definition rowBase :: "nat \<Rightarrow> nat \<Rightarrow> nat" where
  "rowBase r H = 2 ^ Suc H - 2 ^ (Suc H - r)"

text \<open>
  Two leaves at height 63, whose parent is at position \<open>2^63\<close>, the first slot of row 1;
  and the three leaves of \<open>exForest3\<close> with a hash left at position 9, outside the
  \<open>2^(H+1) = 8\<close> positions of height 2.
\<close>

definition exForestH63 :: "Hash Forest" where
  "exForestH63 = fst (addv2 exParent exMini (NewForest\<lparr>height := 63\<rparr>) [1, 2])"

definition exForestStale :: "Hash Forest" where
  "exForestStale = exForest3\<lparr>data := write_fd (data exForest3) 9 77\<rparr>"

section \<open>Remap: error paths\<close>

text \<open>
  Claim C7. reMap succeeds exactly when destHeight is height + 1 (as numbers: at height
  255 the 8-bit sum wraps to 0 and that call is rejected too). Every other argument,
  the same height, growth by more than one, any decrease, gives an error, and an
  erroring call returns the forest it was given: numLeaves, height, the storage and
  the reverse index are untouched.
\<close>

theorem reMap_validates_before_mutating:
  "(snd (reMap f destHeight) = None \<longleftrightarrow> unat destHeight = unat (height f) + 1) \<and>
   (snd (reMap f destHeight) = None \<longrightarrow> destHeight = height f + 1) \<and>
   (snd (reMap f destHeight) \<noteq> None \<longrightarrow> fst (reMap f destHeight) = f)"
proof (intro conjI impI)
  show "snd (reMap f destHeight) = None \<longleftrightarrow> unat destHeight = unat (height f) + 1"
    by (simp add: reMap_success_iff)
next
  assume "snd (reMap f destHeight) = None"
  then have "unat destHeight = Suc (unat (height f))"
    by (simp add: reMap_success_iff)
  then show "destHeight = height f + 1"
    by unat_arith
next
  assume "snd (reMap f destHeight) \<noteq> None"
  then show "fst (reMap f destHeight) = f"
    by (rule reMap_error_unchanged)
qed

theorem reMap_validates_before_mutating_witness:
  "snd (reMap (NewForest :: nat Forest) 1) = None \<and>
   snd (reMap (NewForest :: nat Forest) 0) \<noteq> None \<and>
   fst (reMap (NewForest :: nat Forest) 0) = NewForest \<and>
   snd (reMap (NewForest :: nat Forest) 2) \<noteq> None \<and>
   fst (reMap (NewForest :: nat Forest) 2) = NewForest"
  using reMap_validates_before_mutating [of "NewForest :: nat Forest" 1]
    reMap_validates_before_mutating [of "NewForest :: nat Forest" 0]
    reMap_validates_before_mutating [of "NewForest :: nat Forest" 2]
  by (simp add: NewForest_def)

section \<open>Add: the carry loop\<close>










text \<open>
  What the loop builds depends on the order of the list alone: on three leaves and a
  fourth, with the list as \<open>getTopsReverse\<close> gives it the root pairs leaf 2 with the
  parent of (the parent of leaves 0 and 1) and the new leaf; with the same list
  reversed it is the parent of the two pairs of leaves.
\<close>

lemma carry_with_listed_order:
  "read (fst (addCarry Parent 3 2 (fst (getTopsReverse 3 2)) 0 3 l3
                (write_fd (exLeaves3 Parent l0 l1 l2) 3 l3))) 6
   = Parent l2 (Parent (Parent l0 l1) l3)"
  by code_simp

lemma carry_with_reversed_order:
  "read (fst (addCarry Parent 3 2 (rev (fst (getTopsReverse 3 2))) 0 3 l3
                (write_fd (exLeaves3 Parent l0 l1 l2) 3 l3))) 6
   = Parent (Parent l0 l1) (Parent l2 l3)"
  by code_simp

section \<open>The order of the top list\<close>

lemma card_bits: "card {r. bit (nl :: u64) r} = length (filter (bit nl) [0 ..< 64])"
proof -
  have "{r. bit nl r} = set (filter (bit nl) [0 ..< 64])"
    using bit_imp_le_length[of nl] by auto
  moreover have "distinct (filter (bit nl) [0 ..< 64])" by simp
  ultimately show ?thesis by (simp only: distinct_card)
qed

lemma topRows_unat: "map unat (map of_nat (topRows nl) :: u8 list) = topRows nl"
proof -
  have "r \<in> set (topRows nl) \<Longrightarrow> unat (of_nat r :: u8) = r" for r
    by (auto simp: topRows_def unat_of_nat)
  then show ?thesis by (simp add: map_idI)
qed

lemma topRows_descending: "sorted_wrt (\<lambda>a b. b < a) (topRows nl)"
proof -
  have "sorted_wrt (<) (filter (bit nl) [0 ..< 64])"
    by (rule sorted_wrt_filter) simp
  then show ?thesis by (simp add: topRows_def sorted_wrt_rev)
qed

lemma topRows_hd: "nl \<noteq> 0 \<Longrightarrow> topRows nl \<noteq> [] \<and> hd (topRows nl) = Max {r. bit nl r}"
proof -
  assume "nl \<noteq> 0"
  then obtain r where r: "bit nl r" by (auto simp: bit_eq_iff)
  have s: "set (topRows nl) = {r. bit nl r}"
    using bit_imp_le_length[of nl] by (auto simp: topRows_def)
  then have ne: "topRows nl \<noteq> []" using r by auto
  have "\<forall>x \<in> set (topRows nl). x \<le> hd (topRows nl)"
    using topRows_descending[of nl] ne
    by (cases "topRows nl") (auto simp: less_imp_le)
  moreover have "hd (topRows nl) \<in> set (topRows nl)" using ne by simp
  ultimately have "Max (set (topRows nl)) = hd (topRows nl)"
    by (intro Max_eqI) auto
  then show ?thesis using ne s by simp
qed

text \<open>
  Claim C4. For every numLeaves and height, getTopsReverse returns one top per set bit
  of numLeaves, positions and row heights side by side, highest bit first: the heights
  are the set bits in strictly descending order, each position is the top of the row
  beside it, and when there are leaves the first element, tops[0], is the top of the
  highest set bit, the tallest top. reHash and addv2 consume the lists as returned.
\<close>

theorem getTopsReverse_tallest_first:
  "length (fst (getTopsReverse nl fh)) = card {r. bit nl r} \<and>
   length (snd (getTopsReverse nl fh)) = card {r. bit nl r} \<and>
   map unat (snd (getTopsReverse nl fh)) = rev (filter (bit nl) [0 ..< 64]) \<and>
   sorted_wrt (\<lambda>a b. b < a) (map unat (snd (getTopsReverse nl fh))) \<and>
   fst (getTopsReverse nl fh)
     = map (\<lambda>h. topPos nl (unat h) fh) (snd (getTopsReverse nl fh)) \<and>
   (nl \<noteq> 0 \<longrightarrow>
      unat (hd (snd (getTopsReverse nl fh))) = Max {r. bit nl r} \<and>
      hd (fst (getTopsReverse nl fh)) = topPos nl (Max {r. bit nl r}) fh)"
proof (intro conjI impI)
  show "length (fst (getTopsReverse nl fh)) = card {r. bit nl r}"
    by (simp add: getTopsReverse_def topRows_def card_bits)
  show "length (snd (getTopsReverse nl fh)) = card {r. bit nl r}"
    by (simp add: getTopsReverse_def topRows_def card_bits)
  show "map unat (snd (getTopsReverse nl fh)) = rev (filter (bit nl) [0 ..< 64])"
    using topRows_unat[of nl] by (simp add: getTopsReverse_def topRows_def)
  show "sorted_wrt (\<lambda>a b. b < a) (map unat (snd (getTopsReverse nl fh)))"
    using topRows_descending[of nl] topRows_unat[of nl] by (simp add: getTopsReverse_def)
  have "map (\<lambda>h. topPos nl (unat h) fh) (map of_nat (topRows nl) :: u8 list)
        = map (\<lambda>r. topPos nl r fh) (map unat (map of_nat (topRows nl) :: u8 list))"
    by (simp only: map_map comp_def)
  then show "fst (getTopsReverse nl fh)
        = map (\<lambda>h. topPos nl (unat h) fh) (snd (getTopsReverse nl fh))"
    unfolding getTopsReverse_def fst_conv snd_conv by (simp only: topRows_unat)
next
  assume nz: "nl \<noteq> 0"
  have "hd (map unat (map of_nat (topRows nl) :: u8 list)) = Max {r. bit nl r}"
    using topRows_hd[OF nz] by (simp only: topRows_unat)
  then show "unat (hd (snd (getTopsReverse nl fh))) = Max {r. bit nl r}"
    using topRows_hd[OF nz] by (simp add: getTopsReverse_def hd_map)
  show "hd (fst (getTopsReverse nl fh)) = topPos nl (Max {r. bit nl r}) fh"
    using topRows_hd[OF nz] by (simp add: getTopsReverse_def hd_map)
qed

theorem getTopsReverse_tallest_first_witness:
  "(5 :: u64) \<noteq> 0 \<and>
   getTopsReverse 5 3 = ([12, 4], [2, 0]) \<and>
   Max {r. bit (5 :: u64) r} = 2 \<and>
   topPos 5 (Max {r. bit (5 :: u64) r}) 3 = 12 \<and>
   card {r. bit (5 :: u64) r} = 2"
proof -
  have g: "getTopsReverse 5 3 = ([12, 4], [2, 0])" by code_simp
  show ?thesis
    using getTopsReverse_tallest_first [of 5 3] g by simp
qed


section \<open>Remove: validation\<close>

lemma exForest1_fields: "numLeaves exForest1 = 1" "height exForest1 = 0"
  by code_simp+

lemma reHash_fields:
  "numLeaves (fst (reHash Parent f dirt)) = numLeaves f"
  "height (fst (reHash Parent f dirt)) = height f"
  "positionMap (fst (reHash Parent f dirt)) = positionMap f"
  by (auto simp: reHash_def Let_def split: prod.splits sum.splits)

lemma removev3_validation_error:
  assumes "of_nat (length dels) > numLeaves f \<or> (\<exists>dpos \<in> set dels. dpos > numLeaves f)"
  shows "snd (removev3 ft Parent Mini f dels) \<noteq> None \<and> fst (removev3 ft Parent Mini f dels) = f"
proof (cases "of_nat (length dels) > numLeaves f")
  case True
  then show ?thesis by (simp add: removev3_def)
next
  case False
  with assms obtain dpos where "dpos \<in> set dels" "dpos > numLeaves f" by auto
  then have "find (\<lambda>dpos. dpos > numLeaves f) dels \<noteq> None"
    by (auto simp: find_None_iff)
  then show ?thesis using False by (auto simp: removev3_def Let_def)
qed

lemma removev3_numLeaves:
  assumes "\<not> of_nat (length dels) > numLeaves f" "\<forall>dpos \<in> set dels. \<not> dpos > numLeaves f"
  shows "numLeaves (fst (removev3 ft Parent Mini f dels)) = numLeaves f - of_nat (length dels)"
proof -
  have "find (\<lambda>dpos. dpos > numLeaves f) dels = None"
    using assms(2) by (simp add: find_None_iff)
  then show ?thesis using assms(1)
    by (simp add: removev3_def Let_def reHash_fields split: prod.splits)
qed

text \<open>
  Claim C2. removev3 rejects a request with more deletions than leaves, and one with a
  position above numLeaves, before it touches the forest
  (\<open>removev3_validation_error\<close>). The position equal to numLeaves is compared with
  \<^verbatim>\<open>>\<close>, not \<^verbatim>\<open>>=\<close>: on the forest of one leaf, deleting position 1, which holds no
  leaf, passes both checks, returns no error and takes numLeaves from 1 to 0, whatever
  floorTransform returns.
\<close>

theorem removev3_accepts_position_numLeaves:
  "numLeaves exForest1 = 1 \<and>
   snd (removev3 ft exParent exMini exForest1 [1]) = None \<and>
   numLeaves (fst (removev3 ft exParent exMini exForest1 [1])) = 0"
  by (simp add: removev3_def Let_def exForest1_fields reHash_def split: prod.splits)


section \<open>Remove: the reverse index\<close>

lemma swapLoop_dom:
  "dom (fst (snd st)) \<subseteq> dom (fst (snd (swapLoop Mini n swaps st))) \<and>
   (finite (dom (fst (snd st))) \<longrightarrow> finite (dom (fst (snd (swapLoop Mini n swaps st)))))"
proof (induction swaps arbitrary: st)
  case Nil
  then show ?case by simp
next
  case (Cons s swaps)
  obtain a b where s: "s = (a, b)" by (cases s)
  obtain d pm dirt where st: "st = (d, pm, dirt)" by (cases st)
  define d' where "d' = swapHash d a b"
  define pm' where "pm' = pm(Mini (read d' b) \<mapsto> b, Mini (read d' a) \<mapsto> a)"
  define dirt' where "dirt' = (if b < n then (if a < n then dirt @ [b] @ [a] else dirt @ [b])
                               else dirt)"
  have step: "swapLoop Mini n (s # swaps) st = swapLoop Mini n swaps (d', pm', dirt')"
    by (simp add: s st Let_def d'_def pm'_def dirt'_def)
  have "dom pm \<subseteq> dom pm'" by (auto simp: pm'_def)
  moreover have "finite (dom pm) \<longrightarrow> finite (dom pm')" by (simp add: pm'_def)
  ultimately show ?case
    unfolding step using Cons.IH[of "(d', pm', dirt')"] by (auto simp: st)
qed

lemma removev3_keeps_keys:
  "dom (positionMap f) \<subseteq> dom (positionMap (fst (removev3 ft Parent Mini f dels))) \<and>
   (finite (dom (positionMap f)) \<longrightarrow>
      finite (dom (positionMap (fst (removev3 ft Parent Mini f dels)))))"
  using swapLoop_dom[of "(data f, positionMap f, [])" Mini
      "numLeaves f - of_nat (length dels)" "ft dels (numLeaves f) (height f)"]
  by (auto simp: removev3_def Let_def reHash_fields split: prod.splits option.splits)

lemma addOne_positionMap:
  "positionMap (fst (addOne Parent Mini f add)) = (positionMap f)(Mini add \<mapsto> numLeaves f)"
  by (simp add: addOne_def Let_def split: prod.splits option.splits)

lemma addv2_Cons:
  "addv2 Parent Mini f (a # adds) =
     (if snd (addOne Parent Mini f a) = None
      then addv2 Parent Mini (fst (addOne Parent Mini f a)) adds
      else addOne Parent Mini f a)"
  by (cases "addOne Parent Mini f a"; cases "snd (addOne Parent Mini f a)") auto

lemma addv2_finite_keys:
  "finite (dom (positionMap f)) \<Longrightarrow> finite (dom (positionMap (fst (addv2 Parent Mini f adds))))"
proof (induction adds arbitrary: f)
  case Nil
  then show ?case by simp
next
  case (Cons a adds)
  have fin: "finite (dom (positionMap (fst (addOne Parent Mini f a))))"
    using Cons.prems by (simp add: addOne_positionMap)
  show ?case
  proof (cases "snd (addOne Parent Mini f a)")
    case None
    then show ?thesis using Cons.IH[OF fin] by (simp add: addv2_Cons del: addv2.simps)
  next
    case (Some e)
    then show ?thesis using fin by (simp add: addv2_Cons del: addv2.simps)
  qed
qed

lemma reMap_positionMap: "positionMap (fst (reMap f destHeight)) = positionMap f"
  by (simp add: reMap_def Let_def)

lemma exForest2_fields:
  "numLeaves exForest2 = 2" "height exForest2 = 1"
  "positionMap exForest2 1 = Some 0" "positionMap exForest2 2 = Some 1"
  by code_simp+

lemma exForest2_keys: "dom (positionMap exForest2) = {1, 2}"
proof -
  let ?f0 = "fst (reMap NewForest 1) :: Hash Forest"
  have s1: "snd (addOne exParent exMini ?f0 1) = None" by code_simp
  have s2: "snd (addOne exParent exMini (fst (addOne exParent exMini ?f0 1)) 2) = None"
    by code_simp
  have e: "exForest2 = fst (addOne exParent exMini (fst (addOne exParent exMini ?f0 1)) 2)"
    by (simp add: exForest2_def addv2_Cons s1 s2 del: addv2.simps(2))
  have "dom (positionMap exForest2) = {exMini 1, exMini 2}"
    by (subst e) (auto simp: addOne_positionMap reMap_positionMap NewForest_def)
  then show ?thesis by (simp add: exMini_def)
qed

lemma exForest2_sane: "sanity exForest2 = None"
proof -
  have "find (\<lambda>t. read (data exForest2) t = empty)
          (fst (getTopsReverse (numLeaves exForest2) (height exForest2))) = None"
    by code_simp
  then show ?thesis
    by (simp add: sanity_def exForest2_fields exForest2_keys)
qed

lemma exForest2_Remove_not_sane:
  "sanity (fst (Remove (\<lambda>dels nl fh. []) exParent exMini exForest2 [1])) = Some SanityPositionMap"
proof -
  have r: "fst (Remove (\<lambda>dels nl fh. []) exParent exMini exForest2 [1])
        = exForest2\<lparr>numLeaves := 1, data := data exForest2, positionMap := positionMap exForest2\<rparr>"
    by (simp add: Remove_def removev3_def Let_def exForest2_fields reHash_def)
  have "find (\<lambda>t. read (data exForest2) t = empty) (fst (getTopsReverse 1 (height exForest2))) = None"
    by code_simp
  then show ?thesis
    by (simp add: r sanity_def exForest2_fields exForest2_keys)
qed

text \<open>
  Claim C5. removev3 only ever adds keys to positionMap; it is Modify that calls
  cleanup afterwards. On the forest of the two leaves 1 and 2, where the index has two
  entries, Remove of position 1 leaves one leaf and an index that still has at least
  two entries, whatever floorTransform returns; with no swaps (the deleted leaf is the
  last one) the call returns no error, and \<open>sanity\<close>, which passed before the call,
  reports the index as larger than the forest after it.
\<close>

theorem Remove_keeps_deleted_keys:
  "numLeaves exForest2 = 2 \<and>
   card (dom (positionMap exForest2)) = 2 \<and>
   numLeaves (fst (Remove ft exParent exMini exForest2 [1])) = 1 \<and>
   2 \<le> card (dom (positionMap (fst (Remove ft exParent exMini exForest2 [1])))) \<and>
   snd (Remove (\<lambda>dels nl fh. []) exParent exMini exForest2 [1]) = None \<and>
   sanity exForest2 = None \<and>
   sanity (fst (Remove (\<lambda>dels nl fh. []) exParent exMini exForest2 [1]))
     = Some SanityPositionMap"
proof -
  let ?f' = "fst (Remove ft exParent exMini exForest2 [1])"
  have n: "numLeaves ?f' = 1"
    unfolding Remove_def
    by (subst removev3_numLeaves) (simp_all add: exForest2_fields)
  have sub: "dom (positionMap exForest2) \<subseteq> dom (positionMap ?f')"
    and fin: "finite (dom (positionMap ?f'))"
    unfolding Remove_def
    using removev3_keeps_keys[of exForest2 ft exParent exMini "[1]"] exForest2_keys
    by auto
  have "{1, 2} \<subseteq> dom (positionMap exForest2)"
    using exForest2_keys by simp
  then have "card {1 :: Hash, 2} \<le> card (dom (positionMap ?f'))"
    using sub fin by (meson card_mono subset_trans)
  then have c: "2 \<le> card (dom (positionMap ?f'))" by simp
  have e: "snd (Remove (\<lambda>dels nl fh. []) exParent exMini exForest2 [1]) = None"
    by (simp add: Remove_def removev3_def Let_def exForest2_fields reHash_def)
  have d: "card (dom (positionMap exForest2)) = 2"
    by (simp add: exForest2_keys)
  show ?thesis
    using n c e d exForest2_fields(1) exForest2_sane exForest2_Remove_not_sane by simp
qed


section \<open>Modify: growing the height\<close>

lemma unat_pow2: "n < 64 \<Longrightarrow> unat (push_bit n 1 :: u64) = 2 ^ n"
proof -
  assume n: "n < 64"
  have "(push_bit n 1 :: u64) = of_nat (2 ^ n)" by simp
  then have "unat (push_bit n 1 :: u64) = 2 ^ n mod 2 ^ 64"
    using unat_of_nat[where 'a=64, of "2 ^ n"] by simp
  moreover have "(2::nat) ^ n < 2 ^ 64" using n by (intro power_strict_increasing) simp_all
  ultimately show ?thesis by simp
qed

lemma pow2_overflow: "64 \<le> n \<Longrightarrow> push_bit n (1 :: u64) = 0"
  by (simp add: push_bit_eq_mult) 

lemma p63: "(2::nat) ^ h < 2 ^ 63 \<Longrightarrow> h < 63"
  by (meson one_less_numeral_iff power_strict_increasing_iff semiring_norm(76))

lemma delta_wrap:
  fixes nl :: u64
  assumes "d \<le> unat nl" "unat nl + a - d < 2 ^ 64"
  shows "unat (nl + (of_nat a - of_nat d)) = unat nl + a - d"
proof -
  have "of_nat (unat nl + a - d) + (of_nat d :: u64) = of_nat (unat nl + a - d + d)"
    by (simp only: of_nat_add)
  also have "\<dots> = of_nat (unat nl + a)" using assms(1) by simp
  also have "\<dots> = nl + of_nat a" by simp
  finally have "(of_nat (unat nl + a - d) :: u64) = nl + (of_nat a - of_nat d)"
    by (simp add: algebra_simps)
  then have "unat (nl + (of_nat a - of_nat d)) = (unat nl + a - d) mod 2 ^ 64"
    using unat_of_nat[where 'a=64, of "unat nl + a - d"] by simp
  then show ?thesis using assms(2) by simp
qed

lemma reMap_numLeaves: "numLeaves (fst (reMap f destHeight)) = numLeaves f"
  by (simp add: reMap_def Let_def)

lemma growLoop_iter:
  "unat (height f) < 64 \<Longrightarrow> unat (numLeaves f + delta) \<le> 2 ^ 63 \<Longrightarrow>
   \<exists>k. growLoop f delta = ((growStep ^^ k) f, None) \<and>
       unat (height ((growStep ^^ k) f)) = unat (height f) + k \<and>
       unat (height f) + k < 64 \<and>
       numLeaves ((growStep ^^ k) f) = numLeaves f \<and>
       positionMap ((growStep ^^ k) f) = positionMap f \<and>
       unat (numLeaves f + delta) \<le> 2 ^ (unat (height f) + k) \<and>
       (\<forall>j<k. 2 ^ (unat (height f) + j) < unat (numLeaves f + delta))"
proof (induction f delta rule: growLoop.induct)
  case (1 f delta)
  have p: "unat (push_bit (unat (height f)) 1 :: u64) = 2 ^ unat (height f)"
    using "1.prems"(1) by (rule unat_pow2)
  show ?case
  proof (cases "numLeaves f + delta > push_bit (unat (height f)) 1")
    case False
    then have eq: "growLoop f delta = (f, None)" by (subst growLoop.simps) simp
    have "unat (numLeaves f + delta) \<le> 2 ^ unat (height f)"
      using False p by (simp add: word_less_nat_alt)
    then show ?thesis using eq "1.prems"(1) by (intro exI[of _ 0]) simp
  next
    case grow: True
    have gt: "2 ^ unat (height f) < unat (numLeaves f + delta)"
      using grow p by (simp add: word_less_nat_alt)
    then have "(2::nat) ^ unat (height f) < 2 ^ 63" using "1.prems"(2) by simp
    then have h63: "unat (height f) < 63" by (rule p63)
    then have "height f < 63" by (simp add: word_less_nat_alt)
    then have hs: "unat (height f + 1) = Suc (unat (height f))" by (rule unat_inc)
    then have ok: "snd (reMap f (height f + 1)) = None"
      by (simp add: reMap_success_iff)
    have eq: "growLoop f delta = growLoop (growStep f) delta"
      using grow ok by (subst growLoop.simps) (simp add: growStep_def)
    have h': "unat (height (growStep f)) = Suc (unat (height f))"
      using ok hs by (simp add: growStep_def reMap_success_height)
    have n': "numLeaves (growStep f) = numLeaves f"
      and m': "positionMap (growStep f) = positionMap f"
      by (simp_all add: growStep_def reMap_numLeaves reMap_positionMap)
    obtain k where k: "growLoop (growStep f) delta = ((growStep ^^ k) (growStep f), None)"
      "unat (height ((growStep ^^ k) (growStep f))) = unat (height (growStep f)) + k"
      "unat (height (growStep f)) + k < 64"
      "numLeaves ((growStep ^^ k) (growStep f)) = numLeaves (growStep f)"
      "positionMap ((growStep ^^ k) (growStep f)) = positionMap (growStep f)"
      "unat (numLeaves (growStep f) + delta) \<le> 2 ^ (unat (height (growStep f)) + k)"
      "\<forall>j<k. 2 ^ (unat (height (growStep f)) + j) < unat (numLeaves (growStep f) + delta)"
      using "1.IH"[OF grow ok] h' h63 "1.prems"(2) n'
      unfolding growStep_def[symmetric] by auto
    have it: "(growStep ^^ Suc k) f = (growStep ^^ k) (growStep f)"
      by (simp add: funpow_swap1)
    have small: "\<forall>j<Suc k. 2 ^ (unat (height f) + j) < unat (numLeaves f + delta)"
    proof (intro allI impI)
      fix j assume "j < Suc k"
      then show "2 ^ (unat (height f) + j) < unat (numLeaves f + delta)"
        using gt k(7) h' n' by (cases j) auto
    qed
    show ?thesis
      apply (rule exI[of _ "Suc k"])
      unfolding it eq
      using k h' n' m' small by simp
  qed
qed


lemma exForest3_fields: "numLeaves exForest3 = 3" "height exForest3 = 2"
  by code_simp+

text \<open>
  Claim C6, as the code has it. On a forest of height below 64, with len(dels) at most
  numLeaves and numLeaves + len(adds) - len(dels) at most 2^63, Modify first runs its
  loop, k turns of reMap(height + 1) that change neither numLeaves nor the reverse
  index, and the loop ends without error at the first height for which
  numLeaves + len(adds) - len(dels) \<le> 2^height holds as a statement about
  mathematical integers: it holds at height + k and fails at every height the loop
  passed. Only then do deletion, cleanup and addition run, on the grown forest. The
  64-bit difference len(adds) - len(dels) wraps when len(dels) > len(adds), and the
  64-bit sum with numLeaves undoes the wrap.
\<close>

theorem Modify_grows_height_first:
  assumes "length dels \<le> unat (numLeaves f)"
    and "unat (numLeaves f) + length adds - length dels \<le> 2 ^ 63"
    and "unat (height f) < 64"
  shows "\<exists>k. growLoop f (of_nat (length adds) - of_nat (length dels)) = ((growStep ^^ k) f, None) \<and>
     unat (height ((growStep ^^ k) f)) = unat (height f) + k \<and>
     numLeaves ((growStep ^^ k) f) = numLeaves f \<and>
     positionMap ((growStep ^^ k) f) = positionMap f \<and>
     int (unat (numLeaves f)) + int (length adds) - int (length dels)
       \<le> 2 ^ (unat (height f) + k) \<and>
     (\<forall>j<k. 2 ^ (unat (height f) + j)
              < int (unat (numLeaves f)) + int (length adds) - int (length dels)) \<and>
     Modify ft Parent Mini f adds dels =
       (case removev3 ft Parent Mini ((growStep ^^ k) f) dels of
          (f2, Some err) \<Rightarrow> (f2, Some err)
        | (f2, None) \<Rightarrow> addv2 Parent Mini (cleanup Mini f2 (of_nat (length dels))) adds)"
proof -
  let ?delta = "of_nat (length adds) - of_nat (length dels) :: u64"
  let ?N = "unat (numLeaves f) + length adds - length dels"
  have "?N < 2 ^ 64" using assms(2) by simp
  then have w: "unat (numLeaves f + ?delta) = ?N"
    using assms(1) by (intro delta_wrap) simp_all
  have i: "int (unat (numLeaves f)) + int (length adds) - int (length dels) = int ?N"
    using assms(1) by simp
  obtain k where k: "growLoop f ?delta = ((growStep ^^ k) f, None)"
    "unat (height ((growStep ^^ k) f)) = unat (height f) + k"
    "numLeaves ((growStep ^^ k) f) = numLeaves f"
    "positionMap ((growStep ^^ k) f) = positionMap f"
    "?N \<le> 2 ^ (unat (height f) + k)"
    "\<forall>j<k. 2 ^ (unat (height f) + j) < ?N"
    using growLoop_iter[of f ?delta] assms(2,3) unfolding w by blast
  have le: "int ?N \<le> 2 ^ (unat (height f) + k)"
    using k(5) by (metis of_nat_le_iff of_nat_numeral of_nat_power)
  have gt: "\<forall>j<k. 2 ^ (unat (height f) + j) < int ?N"
    using k(6) by (metis of_nat_less_iff of_nat_numeral of_nat_power)
  have m: "Modify ft Parent Mini f adds dels =
       (case removev3 ft Parent Mini ((growStep ^^ k) f) dels of
          (f2, Some err) \<Rightarrow> (f2, Some err)
        | (f2, None) \<Rightarrow> addv2 Parent Mini (cleanup Mini f2 (of_nat (length dels))) adds)"
    by (simp add: Modify_def Let_def k(1))
  show ?thesis
    apply (rule exI[of _ k])
    unfolding i
    using k(1,2,3,4) le gt m by blast
qed

theorem Modify_grows_height_first_witness:
  "length [0, 1 :: u64] \<le> unat (numLeaves exForest3) \<and>
   unat (numLeaves exForest3) + length [9 :: Hash] - length [0, 1 :: u64] \<le> 2 ^ 63 \<and>
   unat (height exForest3) < 64 \<and>
   (of_nat (length [9 :: Hash]) - of_nat (length [0, 1 :: u64]) :: u64) = - 1 \<and>
   growLoop exForest3 (of_nat (length [9 :: Hash]) - of_nat (length [0, 1 :: u64]))
     = (exForest3, None) \<and>
   snd (growLoop (NewForest :: Hash Forest)
          (of_nat (length [1, 2, 3 :: Hash]) - of_nat (length ([] :: u64 list)))) = None \<and>
   unat (height (fst (growLoop (NewForest :: Hash Forest)
          (of_nat (length [1, 2, 3 :: Hash]) - of_nat (length ([] :: u64 list)))))) = 2"
proof -
  have a: "length [0, 1 :: u64] \<le> unat (numLeaves exForest3)"
    and b: "unat (numLeaves exForest3) + length [9 :: Hash] - length [0, 1 :: u64] \<le> 2 ^ 63"
    and c: "unat (height exForest3) < 64"
    by (simp_all add: exForest3_fields)
  obtain k where k:
    "growLoop exForest3 (of_nat (length [9 :: Hash]) - of_nat (length [0, 1 :: u64]))
       = ((growStep ^^ k) exForest3, None)"
    "\<forall>j<k. 2 ^ (unat (height exForest3) + j)
        < int (unat (numLeaves exForest3)) + int (length [9 :: Hash]) - int (length [0, 1 :: u64])"
    using Modify_grows_height_first [OF a b c] by blast
  have "k = 0"
  proof (rule ccontr)
    assume "k \<noteq> 0"
    then have "0 < k" by simp
    then show False using k(2) by (auto simp: exForest3_fields)
  qed
  then have g: "growLoop exForest3 (of_nat (length [9 :: Hash]) - of_nat (length [0, 1 :: u64]))
     = (exForest3, None)"
    using k(1) by simp
  have a': "length ([] :: u64 list) \<le> unat (numLeaves (NewForest :: Hash Forest))"
    and b': "unat (numLeaves (NewForest :: Hash Forest)) + length [1, 2, 3 :: Hash]
               - length ([] :: u64 list) \<le> 2 ^ 63"
    and c': "unat (height (NewForest :: Hash Forest)) < 64"
    by (simp_all add: NewForest_def)
  obtain m where m:
    "growLoop (NewForest :: Hash Forest)
        (of_nat (length [1, 2, 3 :: Hash]) - of_nat (length ([] :: u64 list)))
       = ((growStep ^^ m) NewForest, None)"
    "unat (height ((growStep ^^ m) (NewForest :: Hash Forest)))
       = unat (height (NewForest :: Hash Forest)) + m"
    "int (unat (numLeaves (NewForest :: Hash Forest))) + int (length [1, 2, 3 :: Hash])
        - int (length ([] :: u64 list)) \<le> 2 ^ (unat (height (NewForest :: Hash Forest)) + m)"
    "\<forall>j<m. 2 ^ (unat (height (NewForest :: Hash Forest)) + j)
        < int (unat (numLeaves (NewForest :: Hash Forest))) + int (length [1, 2, 3 :: Hash])
            - int (length ([] :: u64 list))"
    using Modify_grows_height_first [OF a' b' c'] by blast
  have le: "(3::int) \<le> 2 ^ m" using m(3) by (simp add: NewForest_def)
  have "m \<noteq> 0" using le by (intro notI) simp
  moreover have "m \<noteq> 1" using le by (intro notI) simp
  moreover have "\<not> 2 < m"
  proof
    assume "2 < m"
    then have "(2::int) ^ 2 < 3" using m(4) by (auto simp: NewForest_def)
    then show False by simp
  qed
  ultimately have "m = 2" by simp
  then have h: "unat (height (fst (growLoop (NewForest :: Hash Forest)
          (of_nat (length [1, 2, 3 :: Hash]) - of_nat (length ([] :: u64 list)))))) = 2"
    using m(1,2) by (simp add: NewForest_def)
  have s: "snd (growLoop (NewForest :: Hash Forest)
          (of_nat (length [1, 2, 3 :: Hash]) - of_nat (length ([] :: u64 list)))) = None"
    using m(1) by simp
  have w: "(of_nat (length [9 :: Hash]) - of_nat (length [0, 1 :: u64]) :: u64) = - 1"
    by simp
  show ?thesis using a b c w g s h by blast
qed

lemma growLoop_high:
  "64 \<le> unat (height f) \<Longrightarrow> numLeaves f + delta \<noteq> 0 \<Longrightarrow>
   snd (growLoop f delta) \<noteq> None \<and> height (fst (growLoop f delta)) = 255 \<and>
   numLeaves (fst (growLoop f delta)) = numLeaves f"
proof (induction f delta rule: growLoop.induct)
  case (1 f delta)
  have z: "push_bit (unat (height f)) (1 :: u64) = 0"
    using "1.prems"(1) by (rule pow2_overflow)
  have grow: "numLeaves f + delta > push_bit (unat (height f)) 1"
    unfolding z using "1.prems"(2) by (simp add: word_greater_zero_iff)
  show ?case
  proof (cases "snd (reMap f (height f + 1)) = None")
    case True
    have eq: "growLoop f delta = growLoop (fst (reMap f (height f + 1))) delta"
      using grow True by (subst growLoop.simps) simp
    have "unat (height (fst (reMap f (height f + 1)))) = Suc (unat (height f))"
      using True by (simp add: reMap_success_height reMap_success_iff)
    then show ?thesis
      unfolding eq using "1.IH"[OF grow True] "1.prems" by (simp add: reMap_numLeaves)
  next
    case False
    have eq: "growLoop f delta = reMap f (height f + 1)"
      using grow False by (subst growLoop.simps) auto
    have "unat (height f + 1) \<noteq> Suc (unat (height f))"
      using False by (simp add: reMap_success_iff)
    then have "\<not> height f < 255" using unat_inc[of "height f" 255] by blast
    then have "height f = 255" by unat_arith simp
    then show ?thesis
      unfolding eq using False reMap_error_unchanged[OF False] by simp
  qed
qed

lemma exForestH64_fields: "numLeaves exForestH64 = 1" "height exForestH64 = 64"
  by (simp_all add: exForestH64_def exForest1_fields)

text \<open>
  From height 64 on the shift \<^verbatim>\<open>1 << f.height\<close> is 0 in 64 bits: the loop goes on as
  long as the sum is not 0, and ends when reMap fails at height 255. On the forest of
  one leaf at height 64, Modify with nothing to add or delete returns that error and
  leaves the height at 255, although 1 \<le> 2^64 holds from the start.
\<close>

theorem Modify_height_64_counterexample:
  "numLeaves exForestH64 = 1 \<and> height exForestH64 = 64 \<and>
   length ([] :: u64 list) \<le> unat (numLeaves exForestH64) \<and>
   int (unat (numLeaves exForestH64)) + int (length ([] :: Hash list))
       - int (length ([] :: u64 list)) \<le> 2 ^ unat (height exForestH64) \<and>
   snd (Modify (\<lambda>dels nl fh. []) exParent exMini exForestH64 [] []) \<noteq> None \<and>
   height (fst (Modify (\<lambda>dels nl fh. []) exParent exMini exForestH64 [] [])) = 255"
proof -
  have g: "snd (growLoop exForestH64 0) \<noteq> None \<and> height (fst (growLoop exForestH64 0)) = 255"
    using growLoop_high[of exForestH64 0] by (simp add: exForestH64_fields)
  then obtain e where e: "growLoop exForestH64 0 = (fst (growLoop exForestH64 0), Some e)"
    by (metis not_None_eq prod.collapse)
  have "Modify (\<lambda>dels nl fh. []) exParent exMini exForestH64 [] []
          = (fst (growLoop exForestH64 0), Some e)"
    by (simp add: Modify_def Let_def) (subst e, simp)
  then show ?thesis using g by (simp add: exForestH64_fields)
qed


text \<open>
  The 64-bit sum can overflow as well: with numLeaves = 2^64 - 1 and two additions the
  loop sees the sum 1 and does not run.
\<close>

lemma growLoop_sum_overflow:
  "growLoop (NewForest\<lparr>numLeaves := - 1\<rparr> :: Hash Forest) (of_nat 2 - of_nat 0)
     = (NewForest\<lparr>numLeaves := - 1\<rparr>, None) \<and>
   \<not> int (unat (- 1 :: u64)) + 2 - 0 \<le> 2 ^ 0"
proof -
  have "0 \<le> uint (- 1 :: u64)" by simp
  then have "\<not> 1 + uint (- 1 :: u64) \<le> 0" by linarith
  then show ?thesis by (subst growLoop.simps) (simp add: NewForest_def)
qed


section \<open>Remap: relocation of the rows\<close>

subsection \<open>The three loops\<close>

lemma read_write_fd: "read (write_fd d p h) q = (if q = p then h else read d q)"
  by (simp add: read_def write_fd_def)

lemma alloc_write_fd: "alloc (write_fd d p h) = alloc d"
  by (simp add: write_fd_def)

lemma unat_add_of_nat: "unat (p :: u64) + i < 2 ^ 64 \<Longrightarrow> unat (p + of_nat i) = unat p + i"
proof -
  assume a: "unat p + i < 2 ^ 64"
  then have i: "unat (of_nat i :: u64) = i" by (simp add: unat_of_nat)
  then have "unat p + unat (of_nat i :: u64) < 2 ^ LENGTH(64)" using a by simp
  then have "unat (p + of_nat i) = unat p + unat (of_nat i :: u64)"
    by (simp only: unat_add_lem)
  then show ?thesis using i by simp
qed

lemma zeroRight_read:
  "read (zeroRight x b d) p = (if x \<le> p \<and> p < b then empty else read d p)"
proof (induction x b d rule: zeroRight.induct)
  case (1 x bound d)
  show ?case
  proof (cases "x < bound")
    case False
    then have "zeroRight x bound d = d" by (subst zeroRight.simps) simp
    then show ?thesis using False by auto
  next
    case True
    then have u: "unat (x + 1) = Suc (unat x)" by (rule unat_inc)
    have "zeroRight x bound d = zeroRight (x + 1) bound (write_fd d x empty)"
      using True by (subst zeroRight.simps) simp
    then show ?thesis
      using "1.IH"[OF True] True u
      by (auto simp: read_write_fd word_le_nat_alt word_less_nat_alt word_unat_eq_iff)
  qed
qed

lemma remapRun_read:
  assumes "unat pos + unat rl \<le> 2 ^ 64"
    and "unat (drop_bit 1 pos) + unat rl \<le> unat pos"
  shows "x \<le> rl \<Longrightarrow>
     alloc (remapRun pos rl x d) = alloc d \<and>
     (\<forall>q. (unat q < unat pos + unat x \<or> unat pos + unat rl \<le> unat q)
          \<longrightarrow> read (remapRun pos rl x d) q = read d q) \<and>
     (\<forall>i. unat x \<le> i \<and> i < unat rl \<longrightarrow>
          read (remapRun pos rl x d) (pos + of_nat i) =
            (if size_fd d > drop_bit 1 pos + of_nat i \<and> read d (drop_bit 1 pos + of_nat i) \<noteq> empty
             then read d (drop_bit 1 pos + of_nat i) else read d (pos + of_nat i)))"
  using assms
proof (induction pos rl x d rule: remapRun.induct)
  case (1 pos rl x d)
  show ?case
  proof (cases "x < rl")
    case False
    then have "remapRun pos rl x d = d" by (subst remapRun.simps) simp
    moreover have "x = rl" using False "1.prems"(1) by simp
    ultimately show ?thesis by auto
  next
    case True
    define src where "src = drop_bit 1 pos + x"
    define ok where "ok \<longleftrightarrow> size_fd d > src \<and> read d src \<noteq> empty"
    define d' where "d' = (if ok then write_fd d (pos + x) (read d src) else d)"
    have step: "remapRun pos rl x d = remapRun pos rl (x + 1) d'"
      using True by (subst remapRun.simps) (simp add: Let_def d'_def ok_def src_def)
    have ux: "unat x < unat rl" using True by (simp add: word_less_nat_alt)
    have u1: "unat (x + 1) = Suc (unat x)" using True by (rule unat_inc)
    have le1: "x + 1 \<le> rl" using True by (rule inc_le)
    have dst: "unat (pos + of_nat i) = unat pos + i" if "i < unat rl" for i
      using that "1.prems"(2) by (intro unat_add_of_nat) simp
    have sr: "unat (drop_bit 1 pos + of_nat i) = unat (drop_bit 1 pos) + i" if "i < unat rl" for i
    proof -
      have "unat pos < 2 ^ 64" using unsigned_less[of pos] by simp
      then show ?thesis using that "1.prems"(3) by (intro unat_add_of_nat) simp
    qed
    have px: "unat (pos + x) = unat pos + unat x" using dst[OF ux] by simp
    have a': "alloc d' = alloc d" by (simp add: d'_def alloc_write_fd)
    have rd': "read d' q = read d q" if "q \<noteq> pos + x" for q
      using that by (simp add: d'_def read_write_fd)
    have rdx: "read d' (pos + x) = (if ok then read d src else read d (pos + x))"
      by (simp add: d'_def read_write_fd)
    have IH: "alloc (remapRun pos rl (x + 1) d') = alloc d' \<and>
     (\<forall>q. (unat q < unat pos + unat (x + 1) \<or> unat pos + unat rl \<le> unat q)
          \<longrightarrow> read (remapRun pos rl (x + 1) d') q = read d' q) \<and>
     (\<forall>i. unat (x + 1) \<le> i \<and> i < unat rl \<longrightarrow>
          read (remapRun pos rl (x + 1) d') (pos + of_nat i) =
            (if size_fd d' > drop_bit 1 pos + of_nat i \<and> read d' (drop_bit 1 pos + of_nat i) \<noteq> empty
             then read d' (drop_bit 1 pos + of_nat i) else read d' (pos + of_nat i)))"
      using "1.IH"[OF True refl refl le1 "1.prems"(2,3)]
      unfolding d'_def ok_def src_def by simp
    show ?thesis
      unfolding step
    proof (intro conjI allI impI)
      show "alloc (remapRun pos rl (x + 1) d') = alloc d" using IH a' by simp
    next
      fix q :: u64
      assume q: "unat q < unat pos + unat x \<or> unat pos + unat rl \<le> unat q"
      then have "q \<noteq> pos + x" using px ux by auto
      moreover have "read (remapRun pos rl (x + 1) d') q = read d' q"
        using IH q u1 by auto
      ultimately show "read (remapRun pos rl (x + 1) d') q = read d q"
        by (simp add: rd')
    next
      fix i
      assume i: "unat x \<le> i \<and> i < unat rl"
      show "read (remapRun pos rl (x + 1) d') (pos + of_nat i) =
            (if size_fd d > drop_bit 1 pos + of_nat i \<and> read d (drop_bit 1 pos + of_nat i) \<noteq> empty
             then read d (drop_bit 1 pos + of_nat i) else read d (pos + of_nat i))"
      proof (cases "i = unat x")
        case True
        then have e: "(of_nat i :: u64) = x" by simp
        have "read (remapRun pos rl (x + 1) d') (pos + x) = read d' (pos + x)"
          using IH px u1 by auto
        then show ?thesis
          unfolding e using rdx by (simp add: ok_def src_def)
      next
        case False
        then have gt: "unat (x + 1) \<le> i" using i u1 by simp
        have "unat (pos + of_nat i) \<noteq> unat (pos + x)" using dst[of i] px i False by simp
        then have n1: "pos + of_nat i \<noteq> pos + x" by auto
        have "unat (drop_bit 1 pos + of_nat i) < unat (pos + x)"
          using sr[of i] px i "1.prems"(3) by simp
        then have n2: "drop_bit 1 pos + of_nat i \<noteq> pos + x" by auto
        have s: "size_fd d' = size_fd d" by (simp add: size_fd_def a')
        show ?thesis
          using IH gt i rd'[OF n1] rd'[OF n2] s by simp
      qed
    qed
  qed
qed

lemma rowBase_Suc: "h \<le> H \<Longrightarrow> rowBase (Suc h) H = rowBase h H + 2 ^ (H - h)"
proof -
  assume "h \<le> H"
  then have e: "Suc H - h = Suc (H - h)" by simp
  have "(2::nat) ^ (H - h) \<le> 2 ^ Suc H" by (intro power_increasing) simp_all
  then show ?thesis by (simp add: rowBase_def e)
qed

lemma rowBase_double: "h \<le> Suc H \<Longrightarrow> rowBase h (Suc H) = 2 * rowBase h H"
proof -
  assume "h \<le> Suc H"
  then have e: "Suc (Suc H) - h = Suc (Suc H - h)" by simp
  show ?thesis by (simp add: rowBase_def e diff_mult_distrib2)
qed

lemma rowBase_mono: "r \<le> r' \<Longrightarrow> rowBase r H \<le> rowBase r' H"
proof -
  assume "r \<le> r'"
  then have "(2::nat) ^ (Suc H - r') \<le> 2 ^ (Suc H - r)" by (intro power_increasing) simp_all
  then show ?thesis unfolding rowBase_def by (rule diff_le_mono2)
qed

lemma rowBase_slot_bound: "r \<le> H \<Longrightarrow> x < 2 ^ (H - r) \<Longrightarrow> rowBase r H + x < 2 ^ Suc H"
proof -
  assume r: "r \<le> H" and x: "x < 2 ^ (H - r)"
  have "rowBase (Suc r) H \<le> rowBase (Suc H) H" using r by (intro rowBase_mono) simp
  moreover have "rowBase (Suc H) H < 2 ^ Suc H" by (simp add: rowBase_def)
  ultimately show ?thesis using rowBase_Suc[OF r] x by simp
qed

lemma rowBase_ge: "1 \<le> h \<Longrightarrow> 2 ^ H \<le> rowBase h H"
proof -
  assume "1 \<le> h"
  then have "rowBase 1 H \<le> rowBase h H" by (rule rowBase_mono)
  then show ?thesis by (simp add: rowBase_def)
qed

lemma unat_half: "unat (drop_bit 1 (w :: u64)) = unat w div 2"
proof -
  have "unat (drop_bit 1 w) = drop_bit 1 (unat w)" by (rule unat_drop_bit_eq)
  then show ?thesis by (simp add: drop_bit_Suc)
qed

lemma unat_of_nat64: "n < 2 ^ 64 \<Longrightarrow> unat (of_nat n :: u64) = n"
  using unat_of_nat[where 'a=64, of n] by simp

lemma pow2_le_64: "n \<le> 64 \<Longrightarrow> (2::nat) ^ n \<le> 2 ^ 64"
  by (intro power_increasing) simp_all

lemma remapRows_read:
  assumes H: "H \<le> 62"
  shows "1 \<le> h \<Longrightarrow> h \<le> Suc H \<Longrightarrow> unat pos = rowBase h (Suc H)
     \<Longrightarrow> unat reach = 2 ^ (Suc H - h) \<Longrightarrow> 2 ^ Suc H \<le> unat (alloc d) \<Longrightarrow>
     alloc (remapRows (of_nat (Suc H)) (of_nat h) pos reach d) = alloc d \<and>
     (\<forall>q. unat q < unat pos \<longrightarrow>
          read (remapRows (of_nat (Suc H)) (of_nat h) pos reach d) q = read d q) \<and>
     (\<forall>r x. h \<le> r \<and> r \<le> H \<and> x < 2 ^ (H - r) \<longrightarrow>
          read (remapRows (of_nat (Suc H)) (of_nat h) pos reach d)
               (of_nat (rowBase r (Suc H) + x)) =
            (if read d (of_nat (rowBase r H + x)) \<noteq> empty
             then read d (of_nat (rowBase r H + x))
             else read d (of_nat (rowBase r (Suc H) + x))))"
proof (induction "Suc H - h" arbitrary: h pos reach d)
  case 0
  then have "h = Suc H" by simp
  then have "remapRows (of_nat (Suc H)) (of_nat h) pos reach d = d"
    by (subst remapRows.simps) simp
  then show ?case using \<open>h = Suc H\<close> by auto
next
  case (Suc n)
  then have hH: "h \<le> H" by simp
  let ?dH = "of_nat (Suc H) :: u8"
  define a :: nat where "a = 2 ^ (H - h)"
  define rl where "rl = drop_bit 1 reach"
  define d' where "d' = remapRun pos rl 0 d"
  have uh: "unat (of_nat h :: u8) = h" using hH H by (simp add: unat_of_nat)
  have uH: "unat ?dH = Suc H" using H by (simp only: unat_of_nat) simp
  have lt: "(of_nat h :: u8) < ?dH" using uh uH hH by (simp add: word_less_nat_alt)
  have step: "remapRows ?dH (of_nat h) pos reach d
        = remapRows ?dH (of_nat (Suc h)) (pos + reach) rl d'"
    using lt by (subst remapRows.simps) (simp add: rl_def d'_def add.commute)
  have e1: "Suc H - h = Suc (H - h)" using hH by simp
  have ur: "unat reach = 2 * a" using Suc.prems(4) by (simp add: a_def e1)
  have url: "unat rl = a" unfolding rl_def unat_half ur by simp
  have up: "unat pos = 2 * rowBase h H" using Suc.prems(2,3) by (simp add: rowBase_double)
  have uhp: "unat (drop_bit 1 pos) = rowBase h H"
    unfolding unat_half up by simp
  have nx: "rowBase (Suc h) (Suc H) = unat pos + 2 * a"
    using rowBase_Suc[of h "Suc H"] Suc.prems(2,3) by (simp add: a_def e1)
  have top: "rowBase (Suc h) (Suc H) < 2 ^ 64"
  proof -
    have "rowBase (Suc h) (Suc H) \<le> rowBase (Suc (Suc H)) (Suc H)"
      using hH by (intro rowBase_mono) simp
    also have "\<dots> < 2 ^ Suc (Suc H)" by (simp add: rowBase_def)
    also have "\<dots> \<le> 2 ^ 64" using H by (intro pow2_le_64) simp
    finally show ?thesis .
  qed
  have apos: "0 < a" by (simp add: a_def)
  have ale: "a \<le> rowBase h H"
  proof -
    have "a \<le> 2 ^ H" unfolding a_def by (intro power_increasing) simp_all
    then show ?thesis using rowBase_ge[OF Suc.prems(1), of H] by simp
  qed
  have pre1: "unat pos + unat rl \<le> 2 ^ 64" using nx top url by simp
  have pre2: "unat (drop_bit 1 pos) + unat rl \<le> unat pos" using uhp url up ale by simp
  have R: "alloc d' = alloc d \<and>
     (\<forall>q. (unat q < unat pos + unat (0 :: u64) \<or> unat pos + unat rl \<le> unat q)
          \<longrightarrow> read d' q = read d q) \<and>
     (\<forall>i. unat (0 :: u64) \<le> i \<and> i < unat rl \<longrightarrow>
          read d' (pos + of_nat i) =
            (if size_fd d > drop_bit 1 pos + of_nat i \<and> read d (drop_bit 1 pos + of_nat i) \<noteq> empty
             then read d (drop_bit 1 pos + of_nat i) else read d (pos + of_nat i)))"
    unfolding d'_def by (rule remapRun_read[OF pre1 pre2]) simp
  have run1: "alloc d' = alloc d" using R by blast
  have run2: "read d' q = read d q" if "unat q < unat pos \<or> unat pos + a \<le> unat q" for q
  proof -
    have "unat q < unat pos + unat (0 :: u64) \<or> unat pos + unat rl \<le> unat q"
      using that url by simp
    then show ?thesis using R by blast
  qed
  have run3: "read d' (pos + of_nat i) =
            (if size_fd d > drop_bit 1 pos + of_nat i \<and> read d (drop_bit 1 pos + of_nat i) \<noteq> empty
             then read d (drop_bit 1 pos + of_nat i) else read d (pos + of_nat i))"
    if "i < a" for i
  proof -
    have "unat (0 :: u64) \<le> i \<and> i < unat rl" using that url by simp
    then show ?thesis using R by blast
  qed
  have upr: "unat (pos + reach) = rowBase (Suc h) (Suc H)"
  proof -
    have "unat pos + unat reach < 2 ^ LENGTH(64)" using nx top ur by simp
    then have "unat (pos + reach) = unat pos + unat reach" by (simp only: unat_add_lem)
    then show ?thesis using nx ur by simp
  qed
  have url': "unat rl = 2 ^ (Suc H - Suc h)" using url by (simp add: a_def)
  have al': "2 ^ Suc H \<le> unat (alloc d')" using Suc.prems(5) run1 by simp
  have IH: "alloc (remapRows ?dH (of_nat (Suc h)) (pos + reach) rl d') = alloc d'"
    "\<And>q. unat q < unat (pos + reach) \<Longrightarrow>
          read (remapRows ?dH (of_nat (Suc h)) (pos + reach) rl d') q = read d' q"
    "\<And>r x. Suc h \<le> r \<Longrightarrow> r \<le> H \<Longrightarrow> x < 2 ^ (H - r) \<Longrightarrow>
          read (remapRows ?dH (of_nat (Suc h)) (pos + reach) rl d')
               (of_nat (rowBase r (Suc H) + x)) =
            (if read d' (of_nat (rowBase r H + x)) \<noteq> empty
             then read d' (of_nat (rowBase r H + x))
             else read d' (of_nat (rowBase r (Suc H) + x)))"
    using Suc.hyps(1)[of "Suc h" "pos + reach" rl d'] Suc.hyps(2) hH upr url' al'
    by simp_all
  have low: "2 ^ Suc H \<le> unat pos"
    using rowBase_ge[OF Suc.prems(1), of "Suc H"] Suc.prems(3) by simp
  have srcd: "read d' (of_nat (rowBase r H + x)) = read d (of_nat (rowBase r H + x))"
    if "r \<le> H" "x < 2 ^ (H - r)" for r x
  proof -
    have b: "rowBase r H + x < 2 ^ Suc H" using that by (rule rowBase_slot_bound)
    then have "rowBase r H + x < 2 ^ 64"
      using pow2_le_64[of "Suc H"] H by simp
    then have "unat (of_nat (rowBase r H + x) :: u64) = rowBase r H + x"
      by (rule unat_of_nat64)
    then show ?thesis using b low by (intro run2) simp
  qed
  show ?case
    unfolding step
  proof (intro conjI allI impI)
    show "alloc (remapRows ?dH (of_nat (Suc h)) (pos + reach) rl d') = alloc d"
      using IH(1) run1 by simp
  next
    fix q :: u64
    assume q: "unat q < unat pos"
    then have "unat q < unat (pos + reach)" using upr nx by simp
    then show "read (remapRows ?dH (of_nat (Suc h)) (pos + reach) rl d') q = read d q"
      using IH(2) run2 q by simp
  next
    fix r x :: nat
    assume rx: "h \<le> r \<and> r \<le> H \<and> x < 2 ^ (H - r)"
    show "read (remapRows ?dH (of_nat (Suc h)) (pos + reach) rl d')
               (of_nat (rowBase r (Suc H) + x)) =
            (if read d (of_nat (rowBase r H + x)) \<noteq> empty
             then read d (of_nat (rowBase r H + x))
             else read d (of_nat (rowBase r (Suc H) + x)))"
    proof (cases "r = h")
      case True
      have xa: "x < a" using rx True by (simp add: a_def)
      have dst: "(of_nat (rowBase r (Suc H) + x) :: u64) = pos + of_nat x"
        unfolding True Suc.prems(3)[symmetric] by simp
      have src: "(of_nat (rowBase r H + x) :: u64) = drop_bit 1 pos + of_nat x"
        unfolding True uhp[symmetric] by simp
      have "unat pos + x < 2 ^ 64" using pre1 url xa by simp
      then have ud: "unat (pos + of_nat x) = unat pos + x" by (rule unat_add_of_nat)
      then have "unat (pos + of_nat x) < unat (pos + reach)" using upr nx xa by simp
      then have r1: "read (remapRows ?dH (of_nat (Suc h)) (pos + reach) rl d') (pos + of_nat x)
            = read d' (pos + of_nat x)"
        by (rule IH(2))
      have sb: "rowBase r H + x < 2 ^ Suc H" using rx by (intro rowBase_slot_bound) simp_all
      then have "rowBase r H + x < 2 ^ 64" using pow2_le_64[of "Suc H"] H by simp
      then have "unat (of_nat (rowBase r H + x) :: u64) = rowBase r H + x"
        by (rule unat_of_nat64)
      then have sz: "size_fd d > drop_bit 1 pos + of_nat x"
        using sb Suc.prems(5) unfolding src[symmetric]
        by (simp add: size_fd_def word_less_nat_alt)
      show ?thesis
        unfolding dst src r1 using run3[OF xa] sz by simp
    next
      case False
      then have r: "Suc h \<le> r" "r \<le> H" "x < 2 ^ (H - r)" using rx by simp_all
      have "rowBase (Suc h) (Suc H) \<le> rowBase r (Suc H)" using r(1) by (rule rowBase_mono)
      then have ge: "unat pos + a \<le> rowBase r (Suc H) + x" using nx by simp
      have "(2::nat) ^ (H - r) \<le> 2 ^ (Suc H - r)" by (intro power_increasing) simp_all
      then have x': "x < 2 ^ (Suc H - r)" using r(3) by linarith
      have "rowBase r (Suc H) + x < 2 ^ Suc (Suc H)"
        using r(2) x' by (intro rowBase_slot_bound) simp_all
      then have "rowBase r (Suc H) + x < 2 ^ 64"
        using pow2_le_64[of "Suc (Suc H)"] H by simp
      then have "unat (of_nat (rowBase r (Suc H) + x) :: u64) = rowBase r (Suc H) + x"
        by (rule unat_of_nat64)
      then have dd: "read d' (of_nat (rowBase r (Suc H) + x))
                = read d (of_nat (rowBase r (Suc H) + x))"
        using ge by (intro run2) simp
      show ?thesis
        using IH(3)[OF r] srcd[OF r(2,3)] dd by simp
    qed
  qed
qed

lemma remapRows_zero: "pos = 0 \<Longrightarrow> reach = 0 \<Longrightarrow> remapRows dH h pos reach d = d"
proof (induction dH h pos reach d rule: remapRows.induct)
  case (1 dH h pos reach d)
  have run: "remapRun pos (drop_bit 1 reach) 0 d = d"
    using "1.prems" by (subst remapRun.simps) simp
  show ?case
  proof (cases "h < dH")
    case True
    have "remapRows dH h pos reach d
        = remapRows dH (h + 1) (pos + reach) (drop_bit 1 reach) (remapRun pos (drop_bit 1 reach) 0 d)"
      using True by (subst remapRows.simps) simp
    then show ?thesis using "1.IH"[OF True] "1.prems" run by simp
  next
    case False
    then show ?thesis by (subst remapRows.simps) simp
  qed
qed

lemma reMap_data_high:
  assumes "64 \<le> unat (height f)" and "snd (reMap f (height f + 1)) = None"
  shows "data (fst (reMap f (height f + 1))) = data f"
proof -
  have u: "unat (height f + 1) = Suc (unat (height f))"
    using assms(2) by (simp add: reMap_success_iff)
  have z1: "push_bit (unat (height f + 1)) (1 :: u64) = 0"
    using assms(1) u by (intro pow2_overflow) simp
  have z2: "push_bit (unat (height f)) (1 :: u64) = 0"
    using assms(1) by (rule pow2_overflow)
  have r: "resize (data f) 0 = data f" by (simp add: resize_def)
  have z: "zeroRight 0 0 (data f) = data f" by (subst zeroRight.simps) simp
  have "fst (reMap f (height f + 1))
      = f\<lparr>data := zeroRight 0 0 (remapRows (height f + 1) 1 0 0 (resize (data f) 0)),
           height := height f + 1\<rparr>"
    using assms(2) unfolding reMap_def Let_def z1 z2 by (auto split: if_split_asm)
  then show ?thesis by (simp add: remapRows_zero r z)
qed

lemma reMap_data_low:
  assumes H: "unat (height f) \<le> 62"
  shows "snd (reMap f (height f + 1)) = None"
    and "unat p < 2 ^ unat (height f) \<Longrightarrow>
           read (data (fst (reMap f (height f + 1)))) p = read (data f) p"
    and "2 ^ unat (height f) \<le> unat p \<Longrightarrow> unat p < 2 ^ Suc (unat (height f)) \<Longrightarrow>
           read (data (fst (reMap f (height f + 1)))) p = empty"
    and "1 \<le> r \<Longrightarrow> r \<le> unat (height f) \<Longrightarrow> x < 2 ^ (unat (height f) - r) \<Longrightarrow>
           read (data (fst (reMap f (height f + 1))))
                (of_nat (rowBase r (Suc (unat (height f))) + x)) =
             (if read (data f) (of_nat (rowBase r (unat (height f)) + x)) \<noteq> empty
              then read (data f) (of_nat (rowBase r (unat (height f)) + x))
              else read (data f) (of_nat (rowBase r (Suc (unat (height f))) + x)))"
proof -
  define Hn where "Hn = unat (height f)"
  define dH where "dH = height f + 1"
  have hl: "height f < 255" using H by (simp add: word_less_nat_alt)
  have u: "unat dH = Suc Hn" unfolding dH_def Hn_def using hl by (rule unat_inc)
  show succ: "snd (reMap f (height f + 1)) = None"
    using u by (simp add: reMap_success_iff dH_def Hn_def)
  have dHn: "dH = of_nat (Suc Hn)" unfolding u[symmetric] by simp
  define d1 where "d1 = resize (data f) (push_bit (Suc Hn) 1)"
  define pos :: u64 where "pos = push_bit (Suc Hn) 1"
  define reach where "reach = drop_bit 1 pos"
  define d2 where "d2 = remapRows dH 1 pos reach d1"
  define d3 where "d3 = zeroRight (push_bit Hn 1) (push_bit (Suc Hn) 1) d2"
  have f': "fst (reMap f (height f + 1)) = f\<lparr>data := d3, height := dH\<rparr>"
    using succ unfolding reMap_def Let_def
    by (auto simp: d3_def d2_def d1_def pos_def reach_def dH_def[symmetric] u Hn_def[symmetric]
             split: if_split_asm)
  have dat: "data (fst (reMap f (height f + 1))) = d3" unfolding f' by simp
  have upos: "unat pos = 2 ^ Suc Hn" unfolding pos_def using H by (intro unat_pow2) (simp add: Hn_def)
  have ulow: "unat (push_bit Hn 1 :: u64) = 2 ^ Hn" using H by (intro unat_pow2) (simp add: Hn_def)
  have rb1: "unat pos = rowBase 1 (Suc Hn)" unfolding upos by (simp add: rowBase_def)
  have ur: "unat reach = 2 ^ (Suc Hn - 1)" unfolding reach_def unat_half upos by simp
  have rd1: "read d1 q = read (data f) q" for q by (simp add: d1_def resize_def read_def)
  have al: "2 ^ Suc Hn \<le> unat (alloc d1)"
  proof -
    have "pos \<le> alloc d1" by (simp add: d1_def resize_def pos_def)
    then show ?thesis using upos by (simp add: word_le_nat_alt)
  qed
  have R: "alloc (remapRows (of_nat (Suc Hn)) (of_nat 1) pos reach d1) = alloc d1 \<and>
     (\<forall>q. unat q < unat pos \<longrightarrow>
          read (remapRows (of_nat (Suc Hn)) (of_nat 1) pos reach d1) q = read d1 q) \<and>
     (\<forall>r x. 1 \<le> r \<and> r \<le> Hn \<and> x < 2 ^ (Hn - r) \<longrightarrow>
          read (remapRows (of_nat (Suc Hn)) (of_nat 1) pos reach d1)
               (of_nat (rowBase r (Suc Hn) + x)) =
            (if read d1 (of_nat (rowBase r Hn + x)) \<noteq> empty
             then read d1 (of_nat (rowBase r Hn + x))
             else read d1 (of_nat (rowBase r (Suc Hn) + x))))"
    using H by (intro remapRows_read rb1 ur al) (simp_all add: Hn_def)
  have d2e: "remapRows (of_nat (Suc Hn)) (of_nat 1) pos reach d1 = d2"
    unfolding d2_def dHn by simp
  have r2a: "read d2 q = read (data f) q" if "unat q < 2 ^ Suc Hn" for q
    using R that unfolding d2e upos rd1 by blast
  have r2b: "read d2 (of_nat (rowBase r (Suc Hn) + x)) =
            (if read (data f) (of_nat (rowBase r Hn + x)) \<noteq> empty
             then read (data f) (of_nat (rowBase r Hn + x))
             else read (data f) (of_nat (rowBase r (Suc Hn) + x)))"
    if "1 \<le> r" "r \<le> Hn" "x < 2 ^ (Hn - r)" for r x
    using R that unfolding d2e rd1 by blast
  have r3: "read d3 q = (if 2 ^ Hn \<le> unat q \<and> unat q < 2 ^ Suc Hn then empty else read d2 q)" for q
    unfolding d3_def zeroRight_read word_le_nat_alt word_less_nat_alt ulow upos[unfolded pos_def]
    by simp
  show "read (data (fst (reMap f (height f + 1)))) p = read (data f) p"
    if "unat p < 2 ^ unat (height f)"
  proof -
    have "unat p < 2 ^ Suc Hn" using that by (simp add: Hn_def)
    then show ?thesis unfolding dat r3 using that r2a by (simp add: Hn_def)
  qed
  show "read (data (fst (reMap f (height f + 1)))) p = empty"
    if "2 ^ unat (height f) \<le> unat p" "unat p < 2 ^ Suc (unat (height f))"
    unfolding dat r3 using that by (simp add: Hn_def)
  show "read (data (fst (reMap f (height f + 1))))
                (of_nat (rowBase r (Suc (unat (height f))) + x)) =
             (if read (data f) (of_nat (rowBase r (unat (height f)) + x)) \<noteq> empty
              then read (data f) (of_nat (rowBase r (unat (height f)) + x))
              else read (data f) (of_nat (rowBase r (Suc (unat (height f))) + x)))"
    if a: "1 \<le> r" "r \<le> unat (height f)" "x < 2 ^ (unat (height f) - r)"
  proof -
    have a': "1 \<le> r" "r \<le> Hn" "x < 2 ^ (Hn - r)" using a by (simp_all add: Hn_def)
    have "(2::nat) ^ (Hn - r) \<le> 2 ^ (Suc Hn - r)" by (intro power_increasing) simp_all
    then have x': "x < 2 ^ (Suc Hn - r)" using a'(3) by linarith
    have "rowBase r (Suc Hn) + x < 2 ^ Suc (Suc Hn)"
      using a'(2) x' by (intro rowBase_slot_bound) simp_all
    then have "rowBase r (Suc Hn) + x < 2 ^ 64"
      using pow2_le_64[of "Suc (Suc Hn)"] H by (simp add: Hn_def)
    then have un: "unat (of_nat (rowBase r (Suc Hn) + x) :: u64) = rowBase r (Suc Hn) + x"
      by (rule unat_of_nat64)
    have "2 ^ Suc Hn \<le> rowBase r (Suc Hn)" using a'(1) by (rule rowBase_ge)
    then have "\<not> (unat (of_nat (rowBase r (Suc Hn) + x) :: u64) < 2 ^ Suc Hn)"
      unfolding un by simp
    then have "read d3 (of_nat (rowBase r (Suc Hn) + x)) = read d2 (of_nat (rowBase r (Suc Hn) + x))"
      unfolding r3 by simp
    then show ?thesis unfolding dat Hn_def[symmetric] using r2b[OF a'] by simp
  qed
qed

text \<open>
  Claim C8, as the code has it. When reMap(height + 1) succeeds on a forest of height
  \<open>H\<close> other than 63: every slot at a position below \<open>2^H\<close> (row 0) holds what it held
  before the call; every slot at a position in \<open>[2^H, 2^(H+1))\<close> holds the empty
  sentinel afterwards; and, for \<open>H \<le> 62\<close>, for every old row \<open>r\<close> from 1 to \<open>H\<close> and
  every index \<open>x\<close> of that row, the slot \<open>x\<close> of row \<open>r\<close> under the new height \<open>H+1\<close>
  holds the hash of slot \<open>x\<close> of row \<open>r\<close> under the old height if that was not empty,
  and is left as it was if the old slot was empty. (From height 64 on no 64-bit position
  is at or above \<open>2^H\<close>, and the call changes no slot.)
\<close>

theorem reMap_relocates_rows:
  assumes "snd (reMap f (height f + 1)) = None" and "unat (height f) \<noteq> 63"
  shows "(\<forall>p. unat p < 2 ^ unat (height f) \<longrightarrow>
            read (data (fst (reMap f (height f + 1)))) p = read (data f) p) \<and>
         (\<forall>p. 2 ^ unat (height f) \<le> unat p \<and> unat p < 2 ^ Suc (unat (height f)) \<longrightarrow>
            read (data (fst (reMap f (height f + 1)))) p = empty) \<and>
         (unat (height f) \<le> 62 \<longrightarrow>
            (\<forall>r x. 1 \<le> r \<and> r \<le> unat (height f) \<and> x < 2 ^ (unat (height f) - r) \<longrightarrow>
               read (data (fst (reMap f (height f + 1))))
                    (of_nat (rowBase r (Suc (unat (height f))) + x)) =
                 (if read (data f) (of_nat (rowBase r (unat (height f)) + x)) \<noteq> empty
                  then read (data f) (of_nat (rowBase r (unat (height f)) + x))
                  else read (data f) (of_nat (rowBase r (Suc (unat (height f))) + x)))))"
proof (cases "unat (height f) \<le> 62")
  case True
  show ?thesis
  proof (intro conjI allI impI)
    fix p :: u64
    assume "unat p < 2 ^ unat (height f)"
    then show "read (data (fst (reMap f (height f + 1)))) p = read (data f) p"
      by (rule reMap_data_low(2)[OF True])
  next
    fix p :: u64
    assume "2 ^ unat (height f) \<le> unat p \<and> unat p < 2 ^ Suc (unat (height f))"
    then show "read (data (fst (reMap f (height f + 1)))) p = empty"
      using reMap_data_low(3)[OF True, of p] by blast
  next
    fix r x :: nat
    assume "1 \<le> r \<and> r \<le> unat (height f) \<and> x < 2 ^ (unat (height f) - r)"
    then show "read (data (fst (reMap f (height f + 1))))
                    (of_nat (rowBase r (Suc (unat (height f))) + x)) =
                 (if read (data f) (of_nat (rowBase r (unat (height f)) + x)) \<noteq> empty
                  then read (data f) (of_nat (rowBase r (unat (height f)) + x))
                  else read (data f) (of_nat (rowBase r (Suc (unat (height f))) + x)))"
      using reMap_data_low(4)[OF True, of r x] by blast
  qed
next
  case False
  then have hi: "64 \<le> unat (height f)" using assms(2) by simp
  have same: "data (fst (reMap f (height f + 1))) = data f"
    using hi assms(1) by (rule reMap_data_high)
  have none: "\<not> 2 ^ unat (height f) \<le> unat p" for p :: u64
  proof -
    have "unat p < 2 ^ 64" using unsigned_less[of p] by simp
    moreover have "(2::nat) ^ 64 \<le> 2 ^ unat (height f)"
      using hi by (intro power_increasing) simp_all
    ultimately show ?thesis by simp
  qed
  show ?thesis unfolding same using False none by simp
qed

text \<open>
  On the three leaves of \<open>exForest3\<close> (height 2): leaf 1 stays, slot 4, which held the
  parent of the first two leaves, is emptied, and that parent is now at slot 8, the
  start of row 1 under height 3.
\<close>

theorem reMap_relocates_rows_witness:
  "snd (reMap exForest3 (height exForest3 + 1)) = None \<and> unat (height exForest3) \<noteq> 63 \<and>
   unat (height exForest3) = 2 \<and> read (data exForest3) 4 = 1002 \<and>
   read (data (fst (reMap exForest3 (height exForest3 + 1)))) 1 = read (data exForest3) 1 \<and>
   read (data (fst (reMap exForest3 (height exForest3 + 1)))) 4 = empty \<and>
   read (data (fst (reMap exForest3 (height exForest3 + 1)))) 8 = 1002"
proof -
  have h: "unat (height exForest3) = 2" by (simp add: exForest3_fields)
  have a: "snd (reMap exForest3 (height exForest3 + 1)) = None"
    by (simp add: reMap_success_iff exForest3_fields)
  have b: "unat (height exForest3) \<noteq> 63" using h by simp
  have s4: "read (data exForest3) 4 = 1002" by code_simp
  have T: "(\<forall>p. unat p < 2 ^ 2 \<longrightarrow>
            read (data (fst (reMap exForest3 (height exForest3 + 1)))) p = read (data exForest3) p) \<and>
         (\<forall>p. 2 ^ 2 \<le> unat p \<and> unat p < 2 ^ Suc 2 \<longrightarrow>
            read (data (fst (reMap exForest3 (height exForest3 + 1)))) p = empty) \<and>
         (2 \<le> (62::nat) \<longrightarrow>
            (\<forall>r x. 1 \<le> r \<and> r \<le> 2 \<and> x < 2 ^ (2 - r) \<longrightarrow>
               read (data (fst (reMap exForest3 (height exForest3 + 1))))
                    (of_nat (rowBase r (Suc 2) + x)) =
                 (if read (data exForest3) (of_nat (rowBase r 2 + x)) \<noteq> empty
                  then read (data exForest3) (of_nat (rowBase r 2 + x))
                  else read (data exForest3) (of_nat (rowBase r (Suc 2) + x)))))"
    using reMap_relocates_rows [OF a b] unfolding h .
  have p1: "read (data (fst (reMap exForest3 (height exForest3 + 1)))) 1 = read (data exForest3) 1"
  proof -
    have "unat (1 :: u64) < 2 ^ 2" by simp
    then show ?thesis using T by blast
  qed
  have p4: "read (data (fst (reMap exForest3 (height exForest3 + 1)))) 4 = empty"
  proof -
    have "2 ^ 2 \<le> unat (4 :: u64) \<and> unat (4 :: u64) < 2 ^ Suc 2" by simp
    then show ?thesis using T by blast
  qed
  have p8: "read (data (fst (reMap exForest3 (height exForest3 + 1)))) 8 = 1002"
  proof -
    have c: "(1::nat) \<le> 1 \<and> (1::nat) \<le> 2 \<and> (0::nat) < 2 ^ (2 - 1)" by simp
    have le: "2 \<le> (62::nat)" by simp
    have r: "read (data (fst (reMap exForest3 (height exForest3 + 1))))
                    (of_nat (rowBase 1 (Suc 2) + 0)) =
                 (if read (data exForest3) (of_nat (rowBase 1 2 + 0)) \<noteq> empty
                  then read (data exForest3) (of_nat (rowBase 1 2 + 0))
                  else read (data exForest3) (of_nat (rowBase 1 (Suc 2) + 0)))"
      using T c le by blast
    have e1: "(of_nat (rowBase 1 (Suc 2) + 0) :: u64) = 8" by (simp add: rowBase_def)
    have e2: "(of_nat (rowBase 1 2 + 0) :: u64) = 4" by (simp add: rowBase_def)
    show ?thesis using r unfolding e1 e2 s4 by (simp add: empty_def)
  qed
  show ?thesis using a b h s4 p1 p4 p8 by blast
qed

lemma exForestH63_remap:
  "height exForestH63 = 63"
  "snd (reMap exForestH63 (height exForestH63 + 1)) = None"
  "height (fst (reMap exForestH63 (height exForestH63 + 1))) = 64"
  "read (data (fst (reMap exForestH63 (height exForestH63 + 1)))) (2 ^ 63) = 1002"
  by code_simp+

lemma exForestStale_remap:
  "height exForestStale = 2"
  "snd (reMap exForestStale (height exForestStale + 1)) = None"
  "read (data exForestStale) (of_nat (rowBase 1 2 + 1)) = empty"
  "read (data (fst (reMap exForestStale (height exForestStale + 1))))
             (of_nat (rowBase 1 3 + 1)) = 77"
  by code_simp+

text \<open>
  At height 63 the call succeeds, but \<^verbatim>\<open>1 << destHeight\<close> is 0 in 64 bits: no row is
  copied and no slot is zeroed, so position \<open>2^63\<close>, which lies in \<open>[2^63, 2^64)\<close>, still
  holds the parent of the two leaves afterwards. And a slot whose source is empty is not
  written: with a hash left at position 9, the second node of row 1 reads empty through
  the old addressing (slot 5) and 77 through the new one (slot 9).
\<close>

theorem reMap_height_63_counterexample:
  "height exForestH63 = 63 \<and> snd (reMap exForestH63 (height exForestH63 + 1)) = None \<and>
   height (fst (reMap exForestH63 (height exForestH63 + 1))) = 64 \<and>
   2 ^ 63 \<le> unat (2 ^ 63 :: u64) \<and> unat (2 ^ 63 :: u64) < 2 ^ 64 \<and>
   read (data (fst (reMap exForestH63 (height exForestH63 + 1)))) (2 ^ 63) = 1002 \<and>
   (1002 :: Hash) \<noteq> empty \<and>
   height exForestStale = 2 \<and> snd (reMap exForestStale (height exForestStale + 1)) = None \<and>
   read (data exForestStale) (of_nat (rowBase 1 2 + 1)) = empty \<and>
   read (data (fst (reMap exForestStale (height exForestStale + 1)))) (of_nat (rowBase 1 3 + 1)) = 77"
proof -
  have u: "unat (2 ^ 63 :: u64) = 2 ^ 63" by simp
  have d: "2 ^ 63 \<le> unat (2 ^ 63 :: u64)" unfolding u by simp
  have e: "unat (2 ^ 63 :: u64) < 2 ^ 64" unfolding u by simp
  have g: "(1002 :: Hash) \<noteq> empty" by code_simp
  show ?thesis using exForestH63_remap exForestStale_remap d e g by blast
qed

end
